theory Spec2Isabelle
  imports Main "HOL-Library.Char_ord" "HOL-Library.List_Lexorder" "HOL-Library.Sublist"
begin

chapter \<open>The hierarchical storage core of cmed-server\<close>

text \<open>
  A shallow embedding of the folder and file controllers
  (\<^verbatim>\<open>controllers/folderController.ts\<close>, \<^verbatim>\<open>controllers/fileController.ts\<close>), the
  blob store (\<^verbatim>\<open>services/fileStorage.ts\<close>), the cache wrapper (\<^verbatim>\<open>config/redis.ts\<close>),
  the name validator (\<^verbatim>\<open>utils/fileValidator.ts\<close>) and the relational schema
  (\<^verbatim>\<open>config/database.ts\<close>).

  Conventions of the embedding.
  \<^item> Identifiers are \<open>int\<close>; a nullable column or parameter is an \<open>int option\<close>.
  \<^item> The tables are lists of rows. Timestamp columns are left out: no operation
    modelled here branches on them. String comparison in queries is equality.
  \<^item> Every controller method takes the world (tables, cache, disk, event trace, the
    fault oracle of this run) and returns the new world with its result object.
  \<^item> A statement of the store, the disk or the cache that throws is a branch: the
    oracle \<open>faults\<close> says which labelled statements throw in this run; the schema's
    constraints (foreign keys, unique keys, column widths) throw by themselves.
  \<^item> The \<open>async\<close> recursions (\<open>isDescendant\<close>, the local \<open>getSubfolders\<close>) take fuel
    and return \<open>None\<close> when it runs out: the call never returns. The synchronous
    recursion \<open>buildTree\<close> takes the depth of the call stack and throws beyond it.
\<close>

section \<open>JavaScript values\<close>

text \<open>Truthiness of a \<^verbatim>\<open>number | null\<close>: \<^verbatim>\<open>null\<close> and \<^verbatim>\<open>0\<close> are falsy.\<close>

fun truthy :: "int option \<Rightarrow> bool" where
  "truthy None = False"
| "truthy (Some n) = (n \<noteq> 0)"

text \<open>The conditional \<^verbatim>\<open>v ? f(v) : g\<close> on a \<^verbatim>\<open>number | null\<close>.\<close>

definition if_truthy :: "int option \<Rightarrow> (int \<Rightarrow> 'a) \<Rightarrow> 'a \<Rightarrow> 'a" where
  "if_truthy v f g = (case v of None \<Rightarrow> g | Some n \<Rightarrow> if n = 0 then g else f n)"

text \<open>Decimal rendering of an integer inside a template string.\<close>

definition digit_char :: "nat \<Rightarrow> char" where
  "digit_char d = ''0123456789'' ! d"

fun digits :: "nat \<Rightarrow> string" where
  "digits n = (if n < 10 then [digit_char n] else digits (n div 10) @ [digit_char (n mod 10)])"

declare digits.simps [simp del]

definition toString :: "int \<Rightarrow> string" where
  "toString i = (if i < 0 then CHR ''-'' # digits (nat (- i)) else digits (nat i))"

text \<open>\<^verbatim>\<open>String.prototype.replace\<close> with a string pattern: the first occurrence only.\<close>

fun replace_first :: "string \<Rightarrow> string \<Rightarrow> string \<Rightarrow> string" where
  "replace_first pat rep [] = (if pat = [] then rep else [])"
| "replace_first pat rep (c # cs) =
     (if prefix pat (c # cs) then rep @ drop (length pat) (c # cs)
      else c # replace_first pat rep cs)"

section \<open>Rows, results and the world\<close>

record folder_row =
  folder_id :: int
  user_id :: int
  parent_folder_id :: "int option"
  folder_name :: string

record file_row =
  file_id :: int
  file_user_id :: int
  file_folder_id :: "int option"
  file_name :: string
  file_path :: string
  mime_type :: string
  file_size :: int

record database =
  users :: "int list"
  folders :: "folder_row list"
  files :: "file_row list"
  next_folder_id :: int
  next_file_id :: int

text \<open>The objects the controllers build, cache and return.\<close>

record file_info =
  fi_id :: int
  fi_name :: string
  fi_size :: int
  fi_mime_type :: string
  fi_folder_id :: "int option"

record folder_info =
  fo_id :: int
  fo_name :: string
  fo_parent_folder_id :: "int option"

record folder_details = folder_info +
  fo_parent_folder_name :: "string option"

datatype tree_node =
  Node (node_id: int) (node_name: string) (level: nat) (nodeId: string)
    (sub_classifications: "tree_node list")

datatype json =
    FileJson file_info
  | FileListJson "file_info list"
  | FolderJson folder_info
  | FolderDetailsJson folder_details
  | FolderListJson "folder_info list"
  | TreeJson "tree_node list"
  | IdJson int
  | NoPayload

datatype result = Success json | Failure string

text \<open>Labels of the statements that can throw, and the events a run leaves behind.\<close>

datatype stmt =
    SelectStmt
  | InsertFolderStmt
  | UpdateNameStmt
  | UpdateParentStmt
  | DeleteSubfoldersStmt
  | DeleteFolderStmt
  | InsertFileStmt
  | DeleteFileStmt
  | CommitStmt
  | DiskWrite
  | RedisCall

datatype event =
    TxBegin
  | TxCommit
  | TxRollback
  | Sql stmt
  | CacheSet string
  | CacheDelete string
  | CacheDeleteByPattern string
  | BlobWrite string
  | BlobUnlink string

type_synonym bytes = "char list"

text \<open>The disk: the regular files with their content, and the directories.\<close>

record filesystem =
  blobs :: "(string \<times> bytes) list"
  dirs :: "string list"

record world =
  db :: database
  cache :: "string \<rightharpoonup> json"
  disk :: filesystem
  UPLOAD_DIR :: string
  faults :: "stmt \<Rightarrow> bool"
  trace :: "event list"

definition emit :: "event \<Rightarrow> world \<Rightarrow> world" where
  "emit e w = w\<lparr>trace := trace w @ [e]\<rparr>"

text \<open>The \<^verbatim>\<open>catch\<close> block of every mutating method: roll back, report.\<close>

definition rollback :: "world \<Rightarrow> string \<Rightarrow> world \<times> result" where
  "rollback w msg = (emit TxRollback w, Failure msg)"

section \<open>The cache wrapper (config/redis.ts)\<close>

text \<open>
  Every method catches its own errors: with Redis unreachable, \<open>get\<close> answers
  \<^verbatim>\<open>null\<close> and the others do nothing.
\<close>

definition cache_get :: "world \<Rightarrow> string \<Rightarrow> json option" where
  "cache_get w key = (if faults w RedisCall then None else cache w key)"

definition cache_set :: "string \<Rightarrow> json \<Rightarrow> world \<Rightarrow> world" where
  "cache_set key data w =
     (if faults w RedisCall then w
      else emit (CacheSet key) (w\<lparr>cache := (cache w)(key \<mapsto> data)\<rparr>))"

definition cache_delete :: "string \<Rightarrow> world \<Rightarrow> world" where
  "cache_delete key w =
     (if faults w RedisCall then w
      else emit (CacheDelete key) (w\<lparr>cache := (cache w)(key := None)\<rparr>))"

text \<open>Redis glob patterns, as far as the controllers use them: literals, \<^verbatim>\<open>?\<close> and \<^verbatim>\<open>*\<close>.\<close>

fun glob_match :: "string \<Rightarrow> string \<Rightarrow> bool" where
  "glob_match [] s = (s = [])"
| "glob_match (p # ps) [] = (p = CHR ''*'' \<and> glob_match ps [])"
| "glob_match (p # ps) (c # cs) =
     (if p = CHR ''*'' then glob_match ps (c # cs) \<or> glob_match (p # ps) cs
      else (p = CHR ''?'' \<or> p = c) \<and> glob_match ps cs)"

definition cache_deleteByPattern :: "string \<Rightarrow> world \<Rightarrow> world" where
  "cache_deleteByPattern pattern w =
     (if faults w RedisCall then w
      else emit (CacheDeleteByPattern pattern)
             (w\<lparr>cache := (\<lambda>k. if glob_match pattern k then None else cache w k)\<rparr>))"

section \<open>The relational store (config/database.ts)\<close>

text \<open>
  \<^verbatim>\<open>folders\<close>: primary key \<open>folder_id\<close> (AUTO_INCREMENT), a foreign key from
  \<open>parent_folder_id\<close> to \<open>folders\<close> with ON DELETE CASCADE, the unique key
  \<open>(user_id, parent_folder_id, name)\<close>, \<open>name\<close> a VARCHAR(255).
  \<^verbatim>\<open>files\<close>: primary key \<open>file_id\<close>, a foreign key from \<open>folder_id\<close> to \<open>folders\<close> with
  ON DELETE CASCADE, the unique key \<open>(folder_id, name, user_id)\<close>.
  Both tables have a foreign key from \<open>user_id\<close> to \<open>users\<close>. A unique key never
  rejects a row with a NULL in it. Of the \<open>users\<close> table the ids are kept; no method
  of the controllers writes to it.
\<close>

definition folder_exists :: "folder_row list \<Rightarrow> int \<Rightarrow> bool" where
  "folder_exists fs i = (i \<in> folder_id ` set fs)"

definition user_exists :: "database \<Rightarrow> int \<Rightarrow> bool" where
  "user_exists d uid = (uid \<in> set (users d))"

definition fk_ok :: "folder_row list \<Rightarrow> int option \<Rightarrow> bool" where
  "fk_ok fs p = (case p of None \<Rightarrow> True | Some i \<Rightarrow> folder_exists fs i)"

definition unique_folder_ok :: "folder_row list \<Rightarrow> folder_row \<Rightarrow> bool" where
  "unique_folder_ok fs r =
     (parent_folder_id r = None \<or>
      filter (\<lambda>x. folder_id x \<noteq> folder_id r \<and> user_id x = user_id r \<and>
                   parent_folder_id x = parent_folder_id r \<and> folder_name x = folder_name r) fs = [])"

definition unique_file_ok :: "file_row list \<Rightarrow> file_row \<Rightarrow> bool" where
  "unique_file_ok rs r =
     (file_folder_id r = None \<or>
      filter (\<lambda>x. file_id x \<noteq> file_id r \<and> file_folder_id x = file_folder_id r \<and>
                   file_name x = file_name r \<and> file_user_id x = file_user_id r) rs = [])"

text \<open>INSERT INTO folders (user_id, parent_folder_id, name): the new id, or a throw.\<close>

definition insert_folder :: "int \<Rightarrow> int option \<Rightarrow> string \<Rightarrow> database \<Rightarrow> (int \<times> database) option" where
  "insert_folder uid parent nm d =
     (let r = \<lparr>folder_id = next_folder_id d, user_id = uid, parent_folder_id = parent,
                folder_name = nm\<rparr>
      in if user_exists d uid \<and> fk_ok (folders d) parent \<and> unique_folder_ok (folders d) r \<and>
            length nm \<le> 255
         then Some (next_folder_id d,
                    d\<lparr>folders := folders d @ [r], next_folder_id := next_folder_id d + 1\<rparr>)
         else None)"

text \<open>UPDATE folders SET name = ? WHERE folder_id = ?\<close>

definition update_folder_name :: "int \<Rightarrow> string \<Rightarrow> database \<Rightarrow> database option" where
  "update_folder_name i nm d =
     (let upd = (\<lambda>r. if folder_id r = i then r\<lparr>folder_name := nm\<rparr> else r);
          fs' = map upd (folders d)
      in if length nm \<le> 255 \<and> list_all (unique_folder_ok fs') (filter (\<lambda>r. folder_id r = i) fs')
         then Some (d\<lparr>folders := fs'\<rparr>) else None)"

text \<open>UPDATE folders SET parent_folder_id = ? WHERE folder_id = ?\<close>

definition update_folder_parent :: "int \<Rightarrow> int option \<Rightarrow> database \<Rightarrow> database option" where
  "update_folder_parent i parent d =
     (let upd = (\<lambda>r. if folder_id r = i then r\<lparr>parent_folder_id := parent\<rparr> else r);
          fs' = map upd (folders d)
      in if (filter (\<lambda>r. folder_id r = i) (folders d) = [] \<or> fk_ok (folders d) parent) \<and>
            list_all (unique_folder_ok fs') (filter (\<lambda>r. folder_id r = i) fs')
         then Some (d\<lparr>folders := fs'\<rparr>) else None)"

text \<open>
  DELETE FROM folders WHERE folder_id IN (...), with the cascade of the two foreign
  keys: the rows named, then round by round the folder rows whose parent is gone, and
  the file rows whose folder is gone. (The engine's limit on the nesting of cascades is
  not modelled.)
\<close>

fun cascade :: "nat \<Rightarrow> folder_row list \<Rightarrow> int list \<Rightarrow> int list" where
  "cascade 0 fs gone = gone"
| "cascade (Suc n) fs gone =
     cascade n fs
       (gone @ map folder_id (filter (\<lambda>r. case parent_folder_id r of None \<Rightarrow> False
                                            | Some p \<Rightarrow> p \<in> set gone) fs))"

definition delete_folders :: "int list \<Rightarrow> database \<Rightarrow> database" where
  "delete_folders ids d =
     (let gone = cascade (length (folders d)) (folders d)
                   (filter (\<lambda>i. folder_exists (folders d) i) ids)
      in d\<lparr>folders := filter (\<lambda>r. folder_id r \<notin> set gone) (folders d),
            files := filter (\<lambda>r. case file_folder_id r of None \<Rightarrow> True
                                   | Some p \<Rightarrow> p \<notin> set gone) (files d)\<rparr>)"

text \<open>INSERT INTO files (user_id, folder_id, name, file_path, mime_type, size)\<close>

definition insert_file ::
  "int \<Rightarrow> int option \<Rightarrow> string \<Rightarrow> string \<Rightarrow> string \<Rightarrow> int \<Rightarrow> database \<Rightarrow> (int \<times> database) option" where
  "insert_file uid fo nm path mime sz d =
     (let r = \<lparr>file_id = next_file_id d, file_user_id = uid, file_folder_id = fo,
                file_name = nm, file_path = path, mime_type = mime, file_size = sz\<rparr>
      in if user_exists d uid \<and> fk_ok (folders d) fo \<and> unique_file_ok (files d) r \<and>
            length nm \<le> 255 \<and> length path \<le> 512 \<and> length mime \<le> 127
         then Some (next_file_id d,
                    d\<lparr>files := files d @ [r], next_file_id := next_file_id d + 1\<rparr>)
         else None)"

text \<open>DELETE FROM files WHERE file_id = ?\<close>

definition delete_file_row :: "int \<Rightarrow> database \<Rightarrow> database" where
  "delete_file_row i d = d\<lparr>files := filter (\<lambda>r. file_id r \<noteq> i) (files d)\<rparr>"

text \<open>The SELECT statements of the controllers.\<close>

definition select_folder :: "database \<Rightarrow> int \<Rightarrow> int \<Rightarrow> folder_row list" where
  "select_folder d i uid = filter (\<lambda>r. folder_id r = i \<and> user_id r = uid) (folders d)"

definition select_folder_by_id :: "database \<Rightarrow> int \<Rightarrow> folder_row list" where
  "select_folder_by_id d i = filter (\<lambda>r. folder_id r = i) (folders d)"

definition select_children :: "database \<Rightarrow> int \<Rightarrow> int list" where
  "select_children d parentId =
     map folder_id (filter (\<lambda>r. parent_folder_id r = Some parentId) (folders d))"

text \<open>\<^verbatim>\<open>parent_folder_id ${p ? '= ?' : 'IS NULL'}\<close>, and the same on \<open>files.folder_id\<close>.\<close>

definition at_level :: "int option \<Rightarrow> int option \<Rightarrow> bool" where
  "at_level p col = if_truthy p (\<lambda>i. col = Some i) (col = None)"

definition select_file :: "database \<Rightarrow> int \<Rightarrow> int \<Rightarrow> file_row list" where
  "select_file d i uid = filter (\<lambda>r. file_id r = i \<and> file_user_id r = uid) (files d)"

definition select_file_by_id :: "database \<Rightarrow> int \<Rightarrow> file_row list" where
  "select_file_by_id d i = filter (\<lambda>r. file_id r = i) (files d)"

definition file_info_of :: "file_row \<Rightarrow> file_info" where
  "file_info_of r = \<lparr>fi_id = file_id r, fi_name = file_name r, fi_size = file_size r,
                     fi_mime_type = mime_type r, fi_folder_id = file_folder_id r\<rparr>"

definition folder_info_of :: "folder_row \<Rightarrow> folder_info" where
  "folder_info_of r = \<lparr>fo_id = folder_id r, fo_name = folder_name r,
                       fo_parent_folder_id = parent_folder_id r\<rparr>"

section \<open>Read paths of the controllers\<close>

text \<open>fileController.getFilesInFolder\<close>

definition getFilesInFolder :: "world \<Rightarrow> int \<Rightarrow> int option \<Rightarrow> world \<times> result" where
  "getFilesInFolder w userId folderId =
     (let cacheKey = if_truthy folderId (\<lambda>i. ''folder:'' @ toString i @ '':files'')
                        (''user:'' @ toString userId @ '':root:files'')
      in case cache_get w cacheKey of
           Some cachedFiles \<Rightarrow> (w, Success cachedFiles)
         | None \<Rightarrow>
             if faults w SelectStmt then (w, Failure ''Failed to get files in folder'')
             else
               let rows = sort_key file_name
                            (filter (\<lambda>r. file_user_id r = userId \<and>
                                         at_level folderId (file_folder_id r)) (files (db w)));
                   fileList = FileListJson (map file_info_of rows)
               in (cache_set cacheKey fileList w, Success fileList))"

text \<open>folderController.getSubfolders\<close>

definition getSubfolders :: "world \<Rightarrow> int \<Rightarrow> int option \<Rightarrow> world \<times> result" where
  "getSubfolders w userId folderId =
     (let cacheKey = if_truthy folderId (\<lambda>i. ''folder:'' @ toString i @ '':subfolders'')
                        (''user:'' @ toString userId @ '':root:subfolders'')
      in case cache_get w cacheKey of
           Some cachedSubfolders \<Rightarrow> (w, Success cachedSubfolders)
         | None \<Rightarrow>
             if faults w SelectStmt then (w, Failure ''Failed to get subfolders'')
             else
               let rows = sort_key folder_name
                            (filter (\<lambda>r. user_id r = userId \<and>
                                         at_level folderId (parent_folder_id r)) (folders (db w)));
                   subfolderList = FolderListJson (map folder_info_of rows)
               in (cache_set cacheKey subfolderList w, Success subfolderList))"

text \<open>fileController.getFileDetails\<close>

definition getFileDetails :: "world \<Rightarrow> int \<Rightarrow> int \<Rightarrow> world \<times> result" where
  "getFileDetails w userId fileId =
     (case cache_get w (''file:'' @ toString fileId) of
        Some cachedFile \<Rightarrow> (w, Success cachedFile)
      | None \<Rightarrow>
          if faults w SelectStmt then (w, Failure ''Failed to get file details'')
          else
            (case select_file (db w) fileId userId of
               [] \<Rightarrow> (w, Failure ''File not found'')
             | file # _ \<Rightarrow>
                 let fileDetails = FileJson (file_info_of file)
                 in (cache_set (''file:'' @ toString fileId) fileDetails w, Success fileDetails)))"

section \<open>Paths (node:path, POSIX flavour)\<close>

fun split_on :: "char \<Rightarrow> string \<Rightarrow> string list" where
  "split_on sep [] = [[]]"
| "split_on sep (c # cs) =
     (if c = sep then [] # split_on sep cs
      else (case split_on sep cs of [] \<Rightarrow> [[c]] | s # ss \<Rightarrow> (c # s) # ss))"

fun join_with :: "char \<Rightarrow> string list \<Rightarrow> string" where
  "join_with sep [] = []"
| "join_with sep [s] = s"
| "join_with sep (s # t # ss) = s @ sep # join_with sep (t # ss)"

text \<open>
  \<open>normalizeString\<close>: the segments between separators, empty ones and \<^verbatim>\<open>.\<close> dropped,
  \<^verbatim>\<open>..\<close> cancelling the segment before it (kept when nothing is left to cancel and the
  path is relative).
\<close>

definition normalize_step :: "bool \<Rightarrow> string list \<Rightarrow> string \<Rightarrow> string list" where
  "normalize_step allowAboveRoot res seg =
     (if seg = [] \<or> seg = ''.'' then res
      else if seg = ''..'' then
        (if res \<noteq> [] \<and> last res \<noteq> ''..'' then butlast res
         else if allowAboveRoot then res @ [''..''] else res)
      else res @ [seg])"

definition normalizeString :: "string \<Rightarrow> bool \<Rightarrow> string" where
  "normalizeString path allowAboveRoot =
     join_with CHR ''/'' (foldl (normalize_step allowAboveRoot) [] (split_on CHR ''/'' path))"

definition normalize :: "string \<Rightarrow> string" where
  "normalize path =
     (if path = [] then ''.''
      else
        let isAbsolute = (hd path = CHR ''/'');
            trailingSeparator = (last path = CHR ''/'');
            p = normalizeString path (\<not> isAbsolute)
        in if p = [] then (if isAbsolute then ''/'' else if trailingSeparator then ''./'' else ''.'')
           else (if isAbsolute then ''/'' else []) @ p @ (if trailingSeparator then ''/'' else []))"

definition join :: "string list \<Rightarrow> string" where
  "join args =
     (case filter (\<lambda>a. a \<noteq> []) args of
        [] \<Rightarrow> ''.''
      | a # as \<Rightarrow> normalize (join_with CHR ''/'' (a # as)))"

text \<open>The last component of a path, trailing separators ignored.\<close>

definition last_part :: "string \<Rightarrow> string" where
  "last_part path =
     rev (takeWhile (\<lambda>c. c \<noteq> CHR ''/'') (dropWhile (\<lambda>c. c = CHR ''/'') (rev path)))"

definition extname :: "string \<Rightarrow> string" where
  "extname path =
     (let b = last_part path;
          ext = CHR ''.'' # rev (takeWhile (\<lambda>c. c \<noteq> CHR ''.'') (rev b))
      in if CHR ''.'' \<notin> set b then []
         else if length ext = length b then []
         else if b = ''..'' then []
         else ext)"

definition dirname :: "string \<Rightarrow> string" where
  "dirname path =
     (if path = [] then ''.''
      else
        let hasRoot = (hd path = CHR ''/'');
            r = dropWhile (\<lambda>c. c \<noteq> CHR ''/'') (dropWhile (\<lambda>c. c = CHR ''/'') (rev (tl path)));
            end = length r
        in if r = [] then (if hasRoot then ''/'' else ''.'')
           else if hasRoot \<and> end = 1 then ''//''
           else take end path)"

section \<open>The blob store (services/fileStorage.ts)\<close>

definition getUserStorageDir :: "world \<Rightarrow> int \<Rightarrow> string" where
  "getUserStorageDir w userId = join [UPLOAD_DIR w, ''user_'' @ toString userId]"

text \<open>A directory and the directories above it, nearest first.\<close>

fun parents :: "nat \<Rightarrow> string \<Rightarrow> string list" where
  "parents 0 p = [p]"
| "parents (Suc n) p = (if dirname p = p then [p] else p # parents n (dirname p))"

text \<open>\<^verbatim>\<open>mkdir(dir, { recursive: true })\<close>: throws when a regular file is in the way.\<close>

definition mkdir_recursive :: "string \<Rightarrow> filesystem \<Rightarrow> filesystem option" where
  "mkdir_recursive dir fs =
     (let ds = parents (length dir) dir
      in if list_ex (\<lambda>d. d \<in> fst ` set (blobs fs)) ds then None
         else Some (fs\<lparr>dirs := dirs fs @ filter (\<lambda>d. d \<notin> set (dirs fs)) ds\<rparr>))"

text \<open>\<^verbatim>\<open>writeFile(path, data)\<close>: creates or replaces the file; the directory must exist.\<close>

definition writeFile :: "string \<Rightarrow> bytes \<Rightarrow> filesystem \<Rightarrow> filesystem option" where
  "writeFile path data fs =
     (if path \<in> set (dirs fs) \<or> dirname path \<notin> set (dirs fs) then None
      else Some (fs\<lparr>blobs := (path, data) # filter (\<lambda>b. fst b \<noteq> path) (blobs fs)\<rparr>))"

text \<open>
  \<open>saveFile\<close>; \<open>uuid\<close> is what \<^verbatim>\<open>randomUUID()\<close> returns in this run. The result is the
  new world and, unless the disk threw, \<open>(filePath, fileId)\<close> as returned.
\<close>

definition saveFile ::
  "world \<Rightarrow> string \<Rightarrow> int \<Rightarrow> bytes \<Rightarrow> string \<Rightarrow> world \<times> (string \<times> string) option" where
  "saveFile w uuid userId fileData originalFilename =
     (let fileExtension = extname originalFilename;
          fileId = uuid;
          filename = fileId @ fileExtension;
          firstDir = take 3 fileId;
          secondDir = take 3 (drop 3 fileId);
          userDir = getUserStorageDir w userId;
          fileDir = join [userDir, firstDir, secondDir];
          filePath = join [fileDir, filename]
      in if faults w DiskWrite then (w, None)
         else
           (case mkdir_recursive fileDir (disk w) of
              None \<Rightarrow> (w, None)
            | Some fs1 \<Rightarrow>
                (case writeFile filePath fileData fs1 of
                   None \<Rightarrow> (w\<lparr>disk := fs1\<rparr>, None)
                 | Some fs2 \<Rightarrow>
                     (emit (BlobWrite filePath) (w\<lparr>disk := fs2\<rparr>),
                      Some (replace_first (UPLOAD_DIR w) [] filePath, fileId)))))"

text \<open>\<open>getFile\<close>: the content, or a throw (\<open>None\<close>) when nothing is at the path.\<close>

definition getFile :: "world \<Rightarrow> string \<Rightarrow> bytes option" where
  "getFile w filePath = map_of (blobs (disk w)) (join [UPLOAD_DIR w, filePath])"

definition has_entries :: "filesystem \<Rightarrow> string \<Rightarrow> bool" where
  "has_entries fs dir =
     (list_ex (\<lambda>b. dirname (fst b) = dir) (blobs fs) \<or>
      list_ex (\<lambda>d. d \<noteq> dir \<and> dirname d = dir) (dirs fs))"

text \<open>
  The clean-up loop of \<open>deleteFile\<close>: empty directories are removed upwards until the
  storage root, a directory with entries, or a \<open>readdir\<close> that throws. Each round
  shortens the path, so the length of the first path bounds the rounds.
\<close>

fun prune :: "nat \<Rightarrow> string \<Rightarrow> string \<Rightarrow> filesystem \<Rightarrow> filesystem" where
  "prune 0 root dirPath fs = fs"
| "prune (Suc n) root dirPath fs =
     (if dirPath = root then fs
      else if dirPath \<notin> set (dirs fs) then fs
      else if has_entries fs dirPath then fs
      else prune n root (dirname dirPath) (fs\<lparr>dirs := filter (\<lambda>d. d \<noteq> dirPath) (dirs fs)\<rparr>))"

text \<open>\<open>deleteFile\<close> of the blob store: never throws, answers whether the blob was removed.\<close>

definition deleteFile :: "string \<Rightarrow> world \<Rightarrow> world \<times> bool" where
  "deleteFile filePath w =
     (let fullPath = join [UPLOAD_DIR w, filePath]
      in if faults w DiskWrite \<or> fullPath \<notin> fst ` set (blobs (disk w)) then (w, False)
         else
           let fs1 = (disk w)\<lparr>blobs := filter (\<lambda>b. fst b \<noteq> fullPath) (blobs (disk w))\<rparr>;
               fs2 = prune (Suc (length fullPath)) (UPLOAD_DIR w) (dirname fullPath) fs1
           in (emit (BlobUnlink fullPath) (w\<lparr>disk := fs2\<rparr>), True))"

section \<open>The name validator (utils/fileValidator.ts)\<close>

datatype validation = Valid | Invalid string

text \<open>
  \<^verbatim>\<open>String.prototype.trim\<close>: white space and line terminators are stripped from both
  ends. Of the characters below \<open>0x100\<close>, which are the ones a \<open>string\<close> here can
  hold, those are TAB, LF, VT, FF, CR, the space and the no-break space.
\<close>

definition trim :: "string \<Rightarrow> string" where
  "trim s =
     (let ws = (\<lambda>c. c \<in> set [CHR '' '', CHR 0x09, CHR 0x0A, CHR 0x0B, CHR 0x0C, CHR 0x0D,
                               CHR 0xA0])
      in rev (dropWhile ws (rev (dropWhile ws s))))"

definition invalidChars :: "char list" where
  "invalidChars = [CHR ''/'', CHR 0x5C, CHR '':'', CHR ''*'', CHR ''?'', CHR 0x22,
                   CHR ''<'', CHR ''>'', CHR ''|'']"

definition validateFolderName :: "string \<Rightarrow> validation" where
  "validateFolderName name =
     (if name = [] \<or> trim name = [] then Invalid ''Folder name cannot be empty''
      else if length name > 255 then Invalid ''Folder name cannot exceed 255 characters''
      else (case filter (\<lambda>c. c \<in> set name) invalidChars of
              [] \<Rightarrow> Valid
            | c # _ \<Rightarrow> Invalid (''Folder name contains invalid character: '' @ [c])))"

section \<open>Mutating methods of the file controller\<close>

text \<open>\<^verbatim>\<open>if (folderId) { await cacheMiddleware.delete(`folder:${folderId}:contents`) }\<close>\<close>

definition clear_contents_cache :: "int option \<Rightarrow> world \<Rightarrow> world" where
  "clear_contents_cache folderId w =
     if_truthy folderId (\<lambda>i. cache_delete (''folder:'' @ toString i @ '':contents'') w) w"

record uploaded_file =
  uf_name :: string
  uf_type :: string
  uf_size :: int
  uf_content :: bytes

text \<open>fileController.uploadFile\<close>

definition uploadFile ::
  "world \<Rightarrow> string \<Rightarrow> int \<Rightarrow> uploaded_file \<Rightarrow> int option \<Rightarrow> world \<times> result" where
  "uploadFile w0 uuid userId file folderId =
     (let w = emit TxBegin w0
      in case saveFile w uuid userId (uf_content file) (uf_name file) of
           (w1, None) \<Rightarrow> rollback w1 ''Failed to upload file''
         | (w1, Some (filePath, fileId)) \<Rightarrow>
             if faults w1 InsertFileStmt then rollback w1 ''Failed to upload file''
             else
               (case insert_file userId folderId (uf_name file) filePath (uf_type file)
                       (uf_size file) (db w1) of
                  None \<Rightarrow> rollback w1 ''Failed to upload file''
                | Some (fileDbId, d') \<Rightarrow>
                    let w2 = emit (Sql InsertFileStmt) w1;
                        w3 = clear_contents_cache folderId w2;
                        w4 = cache_delete (''user:'' @ toString userId @ '':folders'') w3
                    in if faults w4 CommitStmt then rollback w4 ''Failed to upload file''
                       else
                         let w5 = (emit TxCommit w4)\<lparr>db := d'\<rparr>
                         in if faults w5 SelectStmt then rollback w5 ''Failed to upload file''
                            else
                              (case select_file_by_id (db w5) fileDbId of
                                 [] \<Rightarrow> (w5, Success (IdJson fileDbId))
                               | r # _ \<Rightarrow>
                                   (w5, Success (FileJson
                                      \<lparr>fi_id = file_id r, fi_name = file_name r,
                                       fi_size = file_size r, fi_mime_type = mime_type r,
                                       fi_folder_id = None\<rparr>)))))"

text \<open>fileController.deleteFile\<close>

definition fileController_deleteFile :: "world \<Rightarrow> int \<Rightarrow> int \<Rightarrow> world \<times> result" where
  "fileController_deleteFile w0 userId fileId =
     (let w = emit TxBegin w0
      in if faults w SelectStmt then rollback w ''Failed to delete file''
         else
           (case select_file (db w) fileId userId of
              [] \<Rightarrow> rollback w ''File not found''
            | file # _ \<Rightarrow>
                let w1 = fst (deleteFile (file_path file) w)
                in if faults w1 DeleteFileStmt then rollback w1 ''Failed to delete file''
                   else
                     let d' = delete_file_row fileId (db w1);
                         w2 = emit (Sql DeleteFileStmt) w1;
                         w3 = cache_delete (''file:'' @ toString fileId) w2;
                         w4 = clear_contents_cache (file_folder_id file) w3;
                         w5 = cache_delete (''user:'' @ toString userId @ '':folders'') w4
                     in if faults w5 CommitStmt then rollback w5 ''Failed to delete file''
                        else ((emit TxCommit w5)\<lparr>db := d'\<rparr>, Success NoPayload)))"

section \<open>The folder controller\<close>

text \<open>The cache keys every structural change clears.\<close>

definition clear_parent_caches :: "int option \<Rightarrow> world \<Rightarrow> world" where
  "clear_parent_caches parent w =
     if_truthy parent
       (\<lambda>p. cache_delete (''folder:'' @ toString p @ '':contents'')
              (cache_delete (''folder:'' @ toString p @ '':subfolders'') w))
       w"

definition clear_user_caches :: "int \<Rightarrow> world \<Rightarrow> world" where
  "clear_user_caches userId w =
     cache_deleteByPattern (''user:'' @ toString userId @ '':folder_tree*'')
       (cache_delete (''user:'' @ toString userId @ '':folders'') w)"

text \<open>folderController.createFolder\<close>

definition createFolder :: "world \<Rightarrow> int \<Rightarrow> string \<Rightarrow> int option \<Rightarrow> world \<times> result" where
  "createFolder w0 userId name parentFolderId =
     (let w = emit TxBegin w0
      in if faults w SelectStmt then rollback w ''Failed to create folder''
         else if if_truthy parentFolderId (\<lambda>p. select_folder (db w) p userId = []) False
         then rollback w ''Parent folder not found''
         else if filter (\<lambda>r. user_id r = userId \<and> folder_name r = name \<and>
                              at_level parentFolderId (parent_folder_id r)) (folders (db w)) \<noteq> []
         then rollback w ''Folder already exists''
         else if faults w InsertFolderStmt then rollback w ''Failed to create folder''
         else
           (case insert_folder userId parentFolderId name (db w) of
              None \<Rightarrow> rollback w ''Failed to create folder''
            | Some (folderId, d') \<Rightarrow>
                let w1 = emit (Sql InsertFolderStmt) w;
                    w2 = clear_parent_caches parentFolderId w1;
                    w3 = clear_user_caches userId w2
                in if faults w3 CommitStmt then rollback w3 ''Failed to create folder''
                   else
                     let w4 = (emit TxCommit w3)\<lparr>db := d'\<rparr>
                     in (case select_folder_by_id (db w4) folderId of
                           [] \<Rightarrow> (w4, Success (IdJson folderId))
                         | folder # _ \<Rightarrow> (w4, Success (FolderJson (folder_info_of folder))))))"

text \<open>folderController.renameFolder\<close>

definition renameFolder :: "world \<Rightarrow> int \<Rightarrow> int \<Rightarrow> string \<Rightarrow> world \<times> result" where
  "renameFolder w0 userId folderId newName =
     (let w = emit TxBegin w0
      in if faults w SelectStmt then rollback w ''Failed to rename folder''
         else
           (case select_folder (db w) folderId userId of
              [] \<Rightarrow> rollback w ''Folder not found''
            | folder # _ \<Rightarrow>
                if filter (\<lambda>r. user_id r = userId \<and> folder_name r = newName \<and>
                               folder_id r \<noteq> folderId \<and>
                               at_level (parent_folder_id folder) (parent_folder_id r))
                     (folders (db w)) \<noteq> []
                then rollback w ''A folder with this name already exists''
                else if faults w UpdateNameStmt then rollback w ''Failed to rename folder''
                else
                  (case update_folder_name folderId newName (db w) of
                     None \<Rightarrow> rollback w ''Failed to rename folder''
                   | Some d' \<Rightarrow>
                       let w1 = emit (Sql UpdateNameStmt) w;
                           w2 = cache_delete (''folder:'' @ toString folderId) w1;
                           w3 = clear_parent_caches (parent_folder_id folder) w2;
                           w4 = clear_user_caches userId w3
                       in if faults w4 CommitStmt then rollback w4 ''Failed to rename folder''
                          else ((emit TxCommit w4)\<lparr>db := d'\<rparr>,
                                Success (FolderJson
                                  \<lparr>fo_id = folderId, fo_name = newName,
                                   fo_parent_folder_id = parent_folder_id folder\<rparr>)))))"

text \<open>
  The local \<open>getSubfolders\<close> of \<open>deleteFolder\<close>: the ids of all folders below
  \<open>parentId\<close>, each child followed by its own descendants.
\<close>

fun deleteFolder_getSubfolders :: "nat \<Rightarrow> database \<Rightarrow> int \<Rightarrow> int list option" where
  "deleteFolder_getSubfolders 0 d parentId = None"
| "deleteFolder_getSubfolders (Suc n) d parentId =
     map_option concat
       (those (map (\<lambda>sub. map_option (Cons sub) (deleteFolder_getSubfolders n d sub))
                 (select_children d parentId)))"

text \<open>
  The loop of \<open>deleteFolder\<close> over the files of the folder:
  \<^verbatim>\<open>for (const file of files) await fileController.deleteFile(userId, file.file_id)\<close>;
  the result of each call is ignored.
\<close>

definition delete_files_of :: "world \<Rightarrow> int \<Rightarrow> file_row list \<Rightarrow> world" where
  "delete_files_of w userId rows =
     foldl (\<lambda>acc file. fst (fileController_deleteFile acc userId (file_id file))) w rows"

text \<open>
  folderController.deleteFolder. The files of the folder are deleted through
  \<open>fileController.deleteFile\<close>, which takes a connection of its own from the pool: each
  of those deletions is a transaction that commits (or rolls back) by itself, before
  the first write of the transaction of \<open>deleteFolder\<close>.
\<close>

definition deleteFolder :: "nat \<Rightarrow> world \<Rightarrow> int \<Rightarrow> int \<Rightarrow> (world \<times> result) option" where
  "deleteFolder fuel w0 userId folderId =
     (let w = emit TxBegin w0
      in if faults w SelectStmt then Some (rollback w ''Failed to delete folder'')
         else
           (case select_folder (db w) folderId userId of
              [] \<Rightarrow> Some (rollback w ''Folder not found'')
            | folder # _ \<Rightarrow>
                let fileRows = filter (\<lambda>r. file_folder_id r = Some folderId) (files (db w));
                    w1 = delete_files_of w userId fileRows
                in (case deleteFolder_getSubfolders fuel (db w1) folderId of
                      None \<Rightarrow> None
                    | Some subfolderIds \<Rightarrow>
                        if subfolderIds \<noteq> [] \<and> faults w1 DeleteSubfoldersStmt
                        then Some (rollback w1 ''Failed to delete folder'')
                        else
                          let d1 = (if subfolderIds \<noteq> [] then delete_folders subfolderIds (db w1)
                                    else db w1);
                              w2 = (if subfolderIds \<noteq> [] then emit (Sql DeleteSubfoldersStmt) w1
                                    else w1)
                          in if faults w2 DeleteFolderStmt
                             then Some (rollback w2 ''Failed to delete folder'')
                             else
                               let d2 = delete_folders [folderId] d1;
                                   w3 = emit (Sql DeleteFolderStmt) w2;
                                   w4 = cache_delete (''folder:'' @ toString folderId) w3;
                                   w5 = cache_delete (''folder:'' @ toString folderId @ '':contents'') w4;
                                   w6 = cache_delete (''folder:'' @ toString folderId @ '':subfolders'') w5;
                                   w7 = clear_parent_caches (parent_folder_id folder) w6;
                                   w8 = clear_user_caches userId w7
                               in if faults w8 CommitStmt
                                  then Some (rollback w8 ''Failed to delete folder'')
                                  else Some ((emit TxCommit w8)\<lparr>db := d2\<rparr>, Success NoPayload))))"

text \<open>
  The local \<open>isDescendant\<close> of \<open>moveFolder\<close>: a depth-first search from \<open>checkId\<close>
  along the parent-to-children edges; the loop over the children stops at the first
  child that answers \<^verbatim>\<open>true\<close>.
\<close>

fun first_true :: "('a \<Rightarrow> bool option) \<Rightarrow> 'a list \<Rightarrow> bool option" where
  "first_true f [] = Some False"
| "first_true f (x # xs) =
     (case f x of None \<Rightarrow> None | Some True \<Rightarrow> Some True | Some False \<Rightarrow> first_true f xs)"

fun isDescendant :: "nat \<Rightarrow> database \<Rightarrow> int \<Rightarrow> int \<Rightarrow> bool option" where
  "isDescendant 0 d checkId targetId = None"
| "isDescendant (Suc n) d checkId targetId =
     (if checkId = targetId then Some True
      else first_true (\<lambda>child. isDescendant n d child targetId) (select_children d checkId))"

text \<open>
  The checks of \<open>moveFolder\<close> on the destination: \<open>None\<close> when the search does not
  return, else the error message of the check that failed, if one did.
\<close>

definition moveFolder_checks ::
  "nat \<Rightarrow> database \<Rightarrow> int \<Rightarrow> folder_row \<Rightarrow> int \<Rightarrow> int option \<Rightarrow> string option option" where
  "moveFolder_checks fuel d userId folder folderId newParentId =
     if_truthy newParentId
       (\<lambda>p. if select_folder d p userId = [] then Some (Some ''New parent folder not found'')
            else
              (case isDescendant fuel d folderId p of
                 None \<Rightarrow> None
               | Some True \<Rightarrow> Some (Some ''Cannot move a folder to its own subfolder'')
               | Some False \<Rightarrow>
                   if filter (\<lambda>r. user_id r = userId \<and> folder_name r = folder_name folder \<and>
                                  parent_folder_id r = Some p) (folders d) \<noteq> []
                   then Some (Some ''A folder with this name already exists in the destination'')
                   else Some None))
       (if filter (\<lambda>r. user_id r = userId \<and> folder_name r = folder_name folder \<and>
                       parent_folder_id r = None) (folders d) \<noteq> []
        then Some (Some ''A folder with this name already exists in the destination'')
        else Some None)"

text \<open>folderController.moveFolder\<close>

definition moveFolder :: "nat \<Rightarrow> world \<Rightarrow> int \<Rightarrow> int \<Rightarrow> int option \<Rightarrow> (world \<times> result) option" where
  "moveFolder fuel w0 userId folderId newParentId =
     (let w = emit TxBegin w0
      in if faults w SelectStmt then Some (rollback w ''Failed to move folder'')
         else
           (case select_folder (db w) folderId userId of
              [] \<Rightarrow> Some (rollback w ''Folder not found'')
            | folder # _ \<Rightarrow>
                if Some folderId = newParentId
                then Some (rollback w ''Cannot move a folder to itself'')
                else
                  (case moveFolder_checks fuel (db w) userId folder folderId newParentId of
                     None \<Rightarrow> None
                   | Some (Some msg) \<Rightarrow> Some (rollback w msg)
                   | Some None \<Rightarrow>
                       if faults w UpdateParentStmt then Some (rollback w ''Failed to move folder'')
                       else
                         (case update_folder_parent folderId newParentId (db w) of
                            None \<Rightarrow> Some (rollback w ''Failed to move folder'')
                          | Some d' \<Rightarrow>
                              let w1 = emit (Sql UpdateParentStmt) w;
                                  w2 = cache_delete (''folder:'' @ toString folderId) w1;
                                  w3 = clear_parent_caches (parent_folder_id folder) w2;
                                  w4 = clear_parent_caches newParentId w3;
                                  w5 = clear_user_caches userId w4
                              in if faults w5 CommitStmt
                                 then Some (rollback w5 ''Failed to move folder'')
                                 else Some ((emit TxCommit w5)\<lparr>db := d'\<rparr>,
                                            Success (FolderJson
                                              \<lparr>fo_id = folderId, fo_name = folder_name folder,
                                               fo_parent_folder_id = newParentId\<rparr>))))))"

text \<open>folderController.getFolderDetails\<close>

definition getFolderDetails :: "world \<Rightarrow> int \<Rightarrow> int \<Rightarrow> world \<times> result" where
  "getFolderDetails w userId folderId =
     (case cache_get w (''folder:'' @ toString folderId) of
        Some cachedFolder \<Rightarrow> (w, Success cachedFolder)
      | None \<Rightarrow>
          if faults w SelectStmt then (w, Failure ''Failed to get folder details'')
          else
            (case select_folder (db w) folderId userId of
               [] \<Rightarrow> (w, Failure ''Folder not found'')
             | folder # _ \<Rightarrow>
                 let parentFolderName =
                       if_truthy (parent_folder_id folder)
                         (\<lambda>p. case select_folder_by_id (db w) p of
                                 [] \<Rightarrow> None | parent # _ \<Rightarrow> Some (folder_name parent))
                         None;
                     folderDetails = FolderDetailsJson
                       \<lparr>fo_id = folder_id folder, fo_name = folder_name folder,
                        fo_parent_folder_id = parent_folder_id folder,
                        fo_parent_folder_name = parentFolderName\<rparr>
                 in (cache_set (''folder:'' @ toString folderId) folderDetails w,
                     Success folderDetails)))"




section \<open>Start-up state and sample inputs\<close>

text \<open>
  The directory that a path names, in the spelling that \<open>join\<close> gives to the paths
  below it: normalised, without the trailing separator.
\<close>

definition directory :: "string \<Rightarrow> string" where
  "directory p =
     (let q = normalize p in if 1 < length q \<and> last q = CHR ''/'' then butlast q else q)"

text \<open>
  The world after \<open>initDatabase\<close> and \<open>initializeStorage\<close> on an empty installation
  whose storage root is \<open>root\<close>: the user \<open>admin\<close> (id 1) with its folder \<open>Root\<close>, no
  file, an empty cache, the storage root created, nothing failing.
\<close>

definition startup :: "string \<Rightarrow> world" where
  "startup root =
     \<lparr>db = \<lparr>users = [1],
            folders = [\<lparr>folder_id = 1, user_id = 1, parent_folder_id = None,
                         folder_name = ''Root''\<rparr>],
            files = [], next_folder_id = 2, next_file_id = 1\<rparr>,
      cache = Map.empty,
      disk = \<lparr>blobs = [], dirs = parents (length (directory root)) (directory root)\<rparr>,
      UPLOAD_DIR = root,
      faults = (\<lambda>_. False),
      trace = []\<rparr>"

definition a_txt :: uploaded_file where
  "a_txt = \<lparr>uf_name = ''a.txt'', uf_type = ''text/plain'', uf_size = 5, uf_content = ''hello''\<rparr>"

definition uuid1 :: string where
  "uuid1 = ''123e4567-e89b-12d3-a456-426614174000''"

definition uuid2 :: string where
  "uuid2 = ''9b2d7c1e-0f3a-4c5d-8e6f-a1b2c3d4e5f6''"

text \<open>The start-up world after owner 1 has uploaded \<open>a.txt\<close> into the folder 1.\<close>

definition with_file :: world where
  "with_file = fst (uploadFile (startup ''/srv/uploads'') uuid1 1 a_txt (Some 1))"

section \<open>Properties of event traces\<close>

text \<open>
  The events a call appends to the trace, and the two orders of cache invalidation
  and commit: the invalidations come only after a commit, or they stand between the
  last write of the transaction and its commit, which ends the run.
\<close>

fun is_invalidation :: "event \<Rightarrow> bool" where
  "is_invalidation (CacheDelete k) = True"
| "is_invalidation (CacheDeleteByPattern k) = True"
| "is_invalidation e = False"

fun is_write :: "event \<Rightarrow> bool" where
  "is_write (Sql s) = True"
| "is_write e = False"

definition new_events :: "world \<Rightarrow> world \<Rightarrow> event list" where
  "new_events w w' = drop (length (trace w)) (trace w')"

definition invalidated_after_commit :: "event list \<Rightarrow> bool" where
  "invalidated_after_commit evs =
     list_all (\<lambda>e. \<not> is_invalidation e) (takeWhile (\<lambda>e. e \<noteq> TxCommit) evs)"

definition invalidated_before_commit :: "event list \<Rightarrow> bool" where
  "invalidated_before_commit evs =
     (evs \<noteq> [] \<and> last evs = TxCommit \<and>
      (let inv = takeWhile is_invalidation (rev (butlast evs))
       in inv \<noteq> [] \<and>
          (case drop (length inv) (rev (butlast evs)) of [] \<Rightarrow> False | e # _ \<Rightarrow> is_write e)))"

definition parent_invalidations :: "int option \<Rightarrow> event list" where
  "parent_invalidations parent =
     if_truthy parent
       (\<lambda>p. [CacheDelete (''folder:'' @ toString p @ '':subfolders''),
             CacheDelete (''folder:'' @ toString p @ '':contents'')]) []"

definition user_invalidations :: "int \<Rightarrow> event list" where
  "user_invalidations userId =
     [CacheDelete (''user:'' @ toString userId @ '':folders''),
      CacheDeleteByPattern (''user:'' @ toString userId @ '':folder_tree*'')]"

section \<open>Rows and their blobs\<close>

text \<open>
  Every file row refers to a blob that is on the disk: the stored path, resolved the way
  \<open>getFile\<close>, \<open>deleteFile\<close> and \<open>fileExists\<close> resolve it, is the path of a blob.
\<close>

definition resolves :: "world \<Rightarrow> string \<Rightarrow> bool" where
  "resolves w filePath = (join [UPLOAD_DIR w, filePath] \<in> fst ` set (blobs (disk w)))"

definition blob_backed :: "world \<Rightarrow> bool" where
  "blob_backed w = list_all (\<lambda>r. resolves w (file_path r)) (files (db w))"

text \<open>The upload of \<open>a.txt\<close> by owner 1 into the folder 1, with the README's storage root.\<close>

definition readme_upload :: "world \<times> result" where
  "readme_upload = uploadFile (startup ''./uploads'') uuid1 1 a_txt (Some 1)"

section \<open>The folder forest\<close>

text \<open>
  \<open>descendant fs a i\<close>: the folder \<open>i\<close> is below the folder \<open>a\<close> in the table \<open>fs\<close>, along
  the parent pointers; the subtree of \<open>a\<close> is \<open>a\<close> with the folders below it.
\<close>

inductive descendant :: "folder_row list \<Rightarrow> int \<Rightarrow> int \<Rightarrow> bool" for fs a where
  child: "r \<in> set fs \<Longrightarrow> parent_folder_id r = Some a \<Longrightarrow> descendant fs a (folder_id r)"
| below: "descendant fs a p \<Longrightarrow> r \<in> set fs \<Longrightarrow> parent_folder_id r = Some p \<Longrightarrow>
          descendant fs a (folder_id r)"

definition in_subtree :: "folder_row list \<Rightarrow> int \<Rightarrow> int \<Rightarrow> bool" where
  "in_subtree fs a i \<longleftrightarrow> i = a \<or> descendant fs a i"

text \<open>A set of folder ids that holds the children of its members.\<close>

definition closed_under_children :: "folder_row list \<Rightarrow> int set \<Rightarrow> bool" where
  "closed_under_children fs S \<longleftrightarrow>
     (\<forall>r\<in>set fs. \<forall>p. parent_folder_id r = Some p \<and> p \<in> S \<longrightarrow> folder_id r \<in> S)"

text \<open>
  The world \<open>with_file\<close> after owner 1 has created the folder \<open>Docs\<close> (id 2) inside
  the folder 1 and uploaded a second \<open>a.txt\<close> into it.
\<close>

definition nested_world :: world where
  "nested_world =
     fst (uploadFile (fst (createFolder with_file 1 ''Docs'' (Some 1))) uuid2 1 a_txt (Some 2))"

text \<open>
  \<open>rooted fs r\<close>: following the parent pointers from the row \<open>r\<close> through rows of
  \<open>fs\<close> ends at a root-level folder. A table is an acyclic forest when its ids are
  distinct and every row is rooted: no parent is missing and no folder is below itself.
\<close>

inductive rooted :: "folder_row list \<Rightarrow> folder_row \<Rightarrow> bool" for fs where
  top: "parent_folder_id r = None \<Longrightarrow> rooted fs r"
| under: "parent_folder_id r = Some p \<Longrightarrow> g \<in> set fs \<Longrightarrow> folder_id g = p \<Longrightarrow> rooted fs g \<Longrightarrow>
          rooted fs r"

definition acyclic_forest :: "folder_row list \<Rightarrow> bool" where
  "acyclic_forest fs \<longleftrightarrow> distinct (map folder_id fs) \<and> (\<forall>r\<in>set fs. rooted fs r)"

text \<open>
  The invariant of the folder table: an acyclic forest whose ids are positive and
  below the AUTO_INCREMENT counter, every folder owned by the owner of its parent.
\<close>

definition store_ok :: "database \<Rightarrow> bool" where
  "store_ok d \<longleftrightarrow>
     acyclic_forest (folders d) \<and> 0 < next_folder_id d \<and>
     (\<forall>r\<in>set (folders d). 0 < folder_id r \<and> folder_id r < next_folder_id d) \<and>
     (\<forall>r\<in>set (folders d). \<forall>g\<in>set (folders d).
         parent_folder_id r = Some (folder_id g) \<longrightarrow> user_id g = user_id r)"

text \<open>
  Sequences of the four methods that change the folder table, each call with its
  arguments; \<open>run\<close> threads the world through them. A call that does not return
  ends the run with \<open>None\<close>.
\<close>

datatype folder_op =
    CreateFolder int string "int option"
  | RenameFolder int int string
  | MoveFolder int int "int option"
  | DeleteFolder int int

fun apply_op :: "nat \<Rightarrow> world \<Rightarrow> folder_op \<Rightarrow> world option" where
  "apply_op fuel w (CreateFolder userId name parentFolderId) =
     Some (fst (createFolder w userId name parentFolderId))"
| "apply_op fuel w (RenameFolder userId folderId newName) =
     Some (fst (renameFolder w userId folderId newName))"
| "apply_op fuel w (MoveFolder userId folderId newParentId) =
     map_option fst (moveFolder fuel w userId folderId newParentId)"
| "apply_op fuel w (DeleteFolder userId folderId) =
     map_option fst (deleteFolder fuel w userId folderId)"

fun run :: "nat \<Rightarrow> world \<Rightarrow> folder_op list \<Rightarrow> world option" where
  "run fuel w [] = Some w"
| "run fuel w (op # ops) =
     (case apply_op fuel w op of None \<Rightarrow> None | Some w' \<Rightarrow> run fuel w' ops)"

definition sample_ops :: "folder_op list" where
  "sample_ops = [CreateFolder 1 ''A'' (Some 1), CreateFolder 1 ''B'' (Some 2),
                 RenameFolder 1 2 ''C'', MoveFolder 1 3 (Some 1)]"

section \<open>The folder tree, flattened\<close>

text \<open>
  The nodes of a tree, the node itself first, and the nodes of a forest: the tree that
  \<open>getFolderTree\<close> returns, flattened.
\<close>

fun nodes :: "tree_node \<Rightarrow> tree_node list" where
  "nodes (Node i nm l s cs) = Node i nm l s cs # concat (map nodes cs)"

definition flatten :: "tree_node list \<Rightarrow> tree_node list" where
  "flatten ts = concat (map nodes ts)"


section \<open>Verification\<close>

subsection \<open>What each step leaves untouched, and what a successful run has done\<close>

lemma emit_frame [simp]:
  "db (emit e w) = db w" "cache (emit e w) = cache w" "disk (emit e w) = disk w"
  "UPLOAD_DIR (emit e w) = UPLOAD_DIR w" "faults (emit e w) = faults w"
  "trace (emit e w) = trace w @ [e]"
  by (simp_all add: emit_def)

lemma cache_delete_frame [simp]:
  "db (cache_delete k w) = db w" "disk (cache_delete k w) = disk w"
  "UPLOAD_DIR (cache_delete k w) = UPLOAD_DIR w" "faults (cache_delete k w) = faults w"
  "trace (cache_delete k w) = trace w @ (if faults w RedisCall then [] else [CacheDelete k])"
  by (simp_all add: cache_delete_def)

lemma cache_deleteByPattern_frame [simp]:
  "db (cache_deleteByPattern k w) = db w" "disk (cache_deleteByPattern k w) = disk w"
  "UPLOAD_DIR (cache_deleteByPattern k w) = UPLOAD_DIR w"
  "faults (cache_deleteByPattern k w) = faults w"
  "trace (cache_deleteByPattern k w) =
     trace w @ (if faults w RedisCall then [] else [CacheDeleteByPattern k])"
  by (simp_all add: cache_deleteByPattern_def)

lemma cache_set_frame [simp]:
  "db (cache_set k v w) = db w" "disk (cache_set k v w) = disk w"
  "UPLOAD_DIR (cache_set k v w) = UPLOAD_DIR w" "faults (cache_set k v w) = faults w"
  by (simp_all add: cache_set_def)

lemma clear_parent_caches_frame [simp]:
  "db (clear_parent_caches p w) = db w" "disk (clear_parent_caches p w) = disk w"
  "UPLOAD_DIR (clear_parent_caches p w) = UPLOAD_DIR w"
  "faults (clear_parent_caches p w) = faults w"
  "trace (clear_parent_caches p w) =
     trace w @ (if faults w RedisCall then [] else parent_invalidations p)"
  by (simp_all add: clear_parent_caches_def parent_invalidations_def if_truthy_def split: option.splits)

lemma clear_user_caches_frame [simp]:
  "db (clear_user_caches u w) = db w" "disk (clear_user_caches u w) = disk w"
  "UPLOAD_DIR (clear_user_caches u w) = UPLOAD_DIR w"
  "faults (clear_user_caches u w) = faults w"
  "trace (clear_user_caches u w) =
     trace w @ (if faults w RedisCall then [] else user_invalidations u)"
  by (simp_all add: clear_user_caches_def user_invalidations_def)

lemma rollback_frame [simp]:
  "db (fst (rollback w msg)) = db w" "snd (rollback w msg) = Failure msg"
  "disk (fst (rollback w msg)) = disk w" "faults (fst (rollback w msg)) = faults w"
  "UPLOAD_DIR (fst (rollback w msg)) = UPLOAD_DIR w"
  by (simp_all add: rollback_def)

lemma rollback_eq [simp]:
  "(rollback w msg = (w', r)) = (w' = emit TxRollback w \<and> r = Failure msg)"
  by (auto simp: rollback_def)

lemma takeWhile_until:
  "\<forall>x\<in>set xs. P x \<Longrightarrow> \<not> P y \<Longrightarrow> takeWhile P (xs @ y # ys) = xs"
  by (induction xs) auto

lemma invalidated_before_commitI:
  assumes "invs \<noteq> []" "list_all is_invalidation invs"
  shows "invalidated_before_commit (pre @ Sql s # invs @ [TxCommit])"
proof -
  have b: "butlast (pre @ Sql s # invs @ [TxCommit]) = pre @ Sql s # invs"
    by (simp add: butlast_append)
  have t: "takeWhile is_invalidation (rev invs @ Sql s # rev pre) = rev invs"
    using assms(2) by (intro takeWhile_until) (simp_all add: list_all_iff)
  show ?thesis
    unfolding invalidated_before_commit_def b using assms(1) by (simp add: t)
qed

lemma createFolder_success:
  assumes "createFolder w u n p = (w', Success r)"
  shows "\<exists>i d'. insert_folder u p n (db w) = Some (i, d') \<and>
           w' = (emit TxCommit (clear_user_caches u (clear_parent_caches p
                   (emit (Sql InsertFolderStmt) (emit TxBegin w)))))\<lparr>db := d'\<rparr>"
  using assms
  by (simp add: createFolder_def Let_def split: if_splits option.splits prod.splits list.splits)

lemma createFolder_order:
  assumes "\<not> faults w RedisCall" "createFolder w u n p = (w', Success r)"
  shows "invalidated_before_commit (new_events w w')"
proof -
  from createFolder_success[OF assms(2)] obtain i d' where
    w': "w' = (emit TxCommit (clear_user_caches u (clear_parent_caches p
                   (emit (Sql InsertFolderStmt) (emit TxBegin w)))))\<lparr>db := d'\<rparr>" by blast
  have "new_events w w' = [TxBegin] @ Sql InsertFolderStmt # (parent_invalidations p @ user_invalidations u) @ [TxCommit]"
    using assms(1) by (simp add: w' new_events_def)
  moreover have "list_all is_invalidation (parent_invalidations p @ user_invalidations u)"
    by (simp add: parent_invalidations_def user_invalidations_def if_truthy_def split: option.splits)
  moreover have "parent_invalidations p @ user_invalidations u \<noteq> []"
    by (simp add: user_invalidations_def)
  ultimately show ?thesis
    using invalidated_before_commitI[of "parent_invalidations p @ user_invalidations u" "[TxBegin]"
        InsertFolderStmt]
    by simp
qed

lemma renameFolder_success:
  assumes "renameFolder w u f n = (w', Success r)"
  shows "\<exists>folder rest d'. select_folder (db w) f u = folder # rest \<and>
           update_folder_name f n (db w) = Some d' \<and>
           w' = (emit TxCommit (clear_user_caches u (clear_parent_caches (parent_folder_id folder)
                   (cache_delete (''folder:'' @ toString f)
                     (emit (Sql UpdateNameStmt) (emit TxBegin w))))))\<lparr>db := d'\<rparr>"
  using assms
  by (simp add: renameFolder_def Let_def split: if_splits option.splits prod.splits list.splits)

lemma moveFolder_success:
  assumes "moveFolder fuel w u f p = Some (w', Success r)"
  shows "\<exists>folder rest d'. select_folder (db w) f u = folder # rest \<and> Some f \<noteq> p \<and>
           moveFolder_checks fuel (db w) u folder f p = Some None \<and>
           update_folder_parent f p (db w) = Some d' \<and>
           w' = (emit TxCommit (clear_user_caches u (clear_parent_caches p
                   (clear_parent_caches (parent_folder_id folder)
                     (cache_delete (''folder:'' @ toString f)
                       (emit (Sql UpdateParentStmt) (emit TxBegin w)))))))\<lparr>db := d'\<rparr>"
  using assms
  by (simp add: moveFolder_def Let_def split: if_splits option.splits prod.splits list.splits)

lemma clear_contents_cache_frame [simp]:
  "db (clear_contents_cache p w) = db w" "disk (clear_contents_cache p w) = disk w"
  "UPLOAD_DIR (clear_contents_cache p w) = UPLOAD_DIR w"
  "faults (clear_contents_cache p w) = faults w"
  "trace (clear_contents_cache p w) =
     trace w @ (if faults w RedisCall then []
                else if_truthy p (\<lambda>i. [CacheDelete (''folder:'' @ toString i @ '':contents'')]) [])"
  by (simp_all add: clear_contents_cache_def if_truthy_def split: option.splits)

lemma is_invalidation_lists [simp]:
  "list_all is_invalidation (parent_invalidations p)"
  "list_all is_invalidation (user_invalidations u)"
  "list_all is_invalidation (if_truthy p (\<lambda>i. [CacheDelete (k i)]) [])"
  "user_invalidations u \<noteq> []"
  by (simp_all add: parent_invalidations_def user_invalidations_def if_truthy_def split: option.splits)

lemma renameFolder_order:
  assumes "\<not> faults w RedisCall" "renameFolder w u f n = (w', Success r)"
  shows "invalidated_before_commit (new_events w w')"
proof -
  from renameFolder_success[OF assms(2)] obtain folder :: folder_row and d' where
    w': "w' = (emit TxCommit (clear_user_caches u (clear_parent_caches (parent_folder_id folder)
                   (cache_delete (''folder:'' @ toString f)
                     (emit (Sql UpdateNameStmt) (emit TxBegin w))))))\<lparr>db := d'\<rparr>" by blast
  let ?invs = "CacheDelete (''folder:'' @ toString f) #
               parent_invalidations (parent_folder_id folder) @ user_invalidations u"
  have "new_events w w' = [TxBegin] @ Sql UpdateNameStmt # ?invs @ [TxCommit]"
    using assms(1) by (simp add: w' new_events_def)
  then show ?thesis
    using invalidated_before_commitI[of ?invs "[TxBegin]" UpdateNameStmt] by simp
qed

lemma moveFolder_order:
  assumes "\<not> faults w RedisCall" "moveFolder fuel w u f p = Some (w', Success r)"
  shows "invalidated_before_commit (new_events w w')"
proof -
  from moveFolder_success[OF assms(2)] obtain folder :: folder_row and d' where
    w': "w' = (emit TxCommit (clear_user_caches u (clear_parent_caches p
                   (clear_parent_caches (parent_folder_id folder)
                     (cache_delete (''folder:'' @ toString f)
                       (emit (Sql UpdateParentStmt) (emit TxBegin w)))))))\<lparr>db := d'\<rparr>" by blast
  let ?invs = "CacheDelete (''folder:'' @ toString f) #
               parent_invalidations (parent_folder_id folder) @ parent_invalidations p @
               user_invalidations u"
  have "new_events w w' = [TxBegin] @ Sql UpdateParentStmt # ?invs @ [TxCommit]"
    using assms(1) by (simp add: w' new_events_def)
  then show ?thesis
    using invalidated_before_commitI[of ?invs "[TxBegin]" UpdateParentStmt] by simp
qed

lemma saveFile_frame [simp]:
  "db (fst (saveFile w uuid u data n)) = db w"
  "cache (fst (saveFile w uuid u data n)) = cache w"
  "faults (fst (saveFile w uuid u data n)) = faults w"
  "UPLOAD_DIR (fst (saveFile w uuid u data n)) = UPLOAD_DIR w"
  by (simp_all add: saveFile_def Let_def split: option.splits)

lemma saveFile_trace:
  "\<exists>pre. trace (fst (saveFile w uuid u data n)) = trace w @ pre \<and>
         list_all (\<lambda>e. \<not> is_write e \<and> \<not> is_invalidation e) pre"
  by (simp add: saveFile_def Let_def split: option.splits)

lemma uploadFile_success:
  assumes "uploadFile w uuid u file fo = (w', Success r)"
  shows "\<exists>path i d'.
           snd (saveFile (emit TxBegin w) uuid u (uf_content file) (uf_name file)) = Some (path, uuid) \<and>
           insert_file u fo (uf_name file) path (uf_type file) (uf_size file) (db w) = Some (i, d') \<and>
           w' = (emit TxCommit (cache_delete (''user:'' @ toString u @ '':folders'')
                  (clear_contents_cache fo (emit (Sql InsertFileStmt)
                     (fst (saveFile (emit TxBegin w) uuid u (uf_content file) (uf_name file)))))))
                \<lparr>db := d'\<rparr>"
proof -
  obtain w1 res where sv: "saveFile (emit TxBegin w) uuid u (uf_content file) (uf_name file) = (w1, res)"
    by (cases "saveFile (emit TxBegin w) uuid u (uf_content file) (uf_name file)")
  have fr: "db w1 = db w" "faults w1 = faults w"
    using saveFile_frame(1,3)[of "emit TxBegin w" uuid u "uf_content file" "uf_name file"]
    by (simp_all add: sv)
  have id: "\<And>p i. res = Some (p, i) \<Longrightarrow> i = uuid"
    using sv by (auto simp: saveFile_def Let_def split: option.splits if_splits)
  show ?thesis
    using assms id
    by (auto simp: uploadFile_def sv fr Let_def
        split: if_splits option.splits prod.splits list.splits)
qed

lemma uploadFile_order:
  assumes "\<not> faults w RedisCall" "uploadFile w uuid u file fo = (w', Success r)"
  shows "invalidated_before_commit (new_events w w')"
proof -
  let ?w1 = "fst (saveFile (emit TxBegin w) uuid u (uf_content file) (uf_name file))"
  from uploadFile_success[OF assms(2)] obtain d' where
    w': "w' = (emit TxCommit (cache_delete (''user:'' @ toString u @ '':folders'')
                  (clear_contents_cache fo (emit (Sql InsertFileStmt) ?w1))))\<lparr>db := d'\<rparr>" by blast
  obtain pre where pre: "trace ?w1 = trace (emit TxBegin w) @ pre"
    using saveFile_trace by blast
  let ?invs = "if_truthy fo (\<lambda>i. [CacheDelete (''folder:'' @ toString i @ '':contents'')]) [] @
               [CacheDelete (''user:'' @ toString u @ '':folders'')]"
  have "new_events w w' = (TxBegin # pre) @ Sql InsertFileStmt # ?invs @ [TxCommit]"
    using assms(1) by (simp add: w' new_events_def pre)
  then show ?thesis
    using invalidated_before_commitI[of ?invs "TxBegin # pre" InsertFileStmt] by simp
qed

lemma deleteFile_frame [simp]:
  "db (fst (deleteFile p w)) = db w"
  "cache (fst (deleteFile p w)) = cache w"
  "faults (fst (deleteFile p w)) = faults w"
  "UPLOAD_DIR (fst (deleteFile p w)) = UPLOAD_DIR w"
  by (simp_all add: deleteFile_def Let_def)

lemma deleteFile_trace:
  "\<exists>pre. trace (fst (deleteFile p w)) = trace w @ pre"
  by (simp add: deleteFile_def Let_def)

lemma fileController_deleteFile_success:
  assumes "fileController_deleteFile w u f = (w', Success r)"
  shows "\<exists>file rest. select_file (db w) f u = file # rest \<and>
           w' = (emit TxCommit (cache_delete (''user:'' @ toString u @ '':folders'')
                  (clear_contents_cache (file_folder_id file)
                    (cache_delete (''file:'' @ toString f)
                      (emit (Sql DeleteFileStmt) (fst (deleteFile (file_path file) (emit TxBegin w))))))))
                \<lparr>db := delete_file_row f (db w)\<rparr>"
  using assms
  by (simp add: fileController_deleteFile_def Let_def
      split: if_splits option.splits prod.splits list.splits)

lemma fileController_deleteFile_order:
  assumes "\<not> faults w RedisCall" "fileController_deleteFile w u f = (w', Success r)"
  shows "invalidated_before_commit (new_events w w')"
proof -
  from fileController_deleteFile_success[OF assms(2)] obtain frow :: file_row where
    w': "w' = (emit TxCommit (cache_delete (''user:'' @ toString u @ '':folders'')
                  (clear_contents_cache (file_folder_id frow)
                    (cache_delete (''file:'' @ toString f)
                      (emit (Sql DeleteFileStmt) (fst (deleteFile (file_path frow) (emit TxBegin w))))))))
                \<lparr>db := delete_file_row f (db w)\<rparr>" by blast
  obtain pre where pre: "trace (fst (deleteFile (file_path frow) (emit TxBegin w))) =
      trace (emit TxBegin w) @ pre"
    using deleteFile_trace by blast
  let ?invs = "CacheDelete (''file:'' @ toString f) #
               if_truthy (file_folder_id frow)
                 (\<lambda>i. [CacheDelete (''folder:'' @ toString i @ '':contents'')]) [] @
               [CacheDelete (''user:'' @ toString u @ '':folders'')]"
  have "new_events w w' = (TxBegin # pre) @ Sql DeleteFileStmt # ?invs @ [TxCommit]"
    using assms(1) by (simp add: w' new_events_def pre)
  then show ?thesis
    using invalidated_before_commitI[of ?invs "TxBegin # pre" DeleteFileStmt] by simp
qed

text \<open>What the deletion of one file, and of the files of a folder, leaves untouched.\<close>

lemma fileController_deleteFile_frame [simp]:
  "faults (fst (fileController_deleteFile w u f)) = faults w"
  "UPLOAD_DIR (fst (fileController_deleteFile w u f)) = UPLOAD_DIR w"
  "folders (db (fst (fileController_deleteFile w u f))) = folders (db w)"
  "next_folder_id (db (fst (fileController_deleteFile w u f))) = next_folder_id (db w)"
  by (simp_all add: fileController_deleteFile_def Let_def delete_file_row_def rollback_def
      split: list.splits)

lemma fileController_deleteFile_trace:
  "\<exists>evs. trace (fst (fileController_deleteFile w u f)) = trace w @ evs"
proof -
  obtain pre where "trace (fst (deleteFile (file_path (hd (select_file (db w) f u))) (emit TxBegin w))) =
      trace (emit TxBegin w) @ pre"
    using deleteFile_trace by blast
  then show ?thesis
    by (auto simp: fileController_deleteFile_def Let_def rollback_def split: list.splits)
qed

lemma fileController_deleteFile_files:
  "set (files (db (fst (fileController_deleteFile w u f)))) \<subseteq> set (files (db w))"
  by (auto simp: fileController_deleteFile_def Let_def delete_file_row_def rollback_def
      split: list.splits)

lemma delete_files_of_frame [simp]:
  "faults (delete_files_of w u rows) = faults w"
  "UPLOAD_DIR (delete_files_of w u rows) = UPLOAD_DIR w"
  "folders (db (delete_files_of w u rows)) = folders (db w)"
  "next_folder_id (db (delete_files_of w u rows)) = next_folder_id (db w)"
  unfolding delete_files_of_def
  by (induction rows arbitrary: w) simp_all

lemma delete_files_of_trace:
  "\<exists>evs. trace (delete_files_of w u rows) = trace w @ evs"
  unfolding delete_files_of_def
proof (induction rows arbitrary: w)
  case Nil
  then show ?case by simp
next
  case (Cons a rows)
  obtain e1 where e1: "trace (fst (fileController_deleteFile w u (file_id a))) = trace w @ e1"
    using fileController_deleteFile_trace by blast
  from Cons[of "fst (fileController_deleteFile w u (file_id a))"] e1
  show ?case by auto
qed

lemma delete_files_of_files:
  "set (files (db (delete_files_of w u rows))) \<subseteq> set (files (db w))"
  unfolding delete_files_of_def
proof (induction rows arbitrary: w)
  case Nil
  then show ?case by simp
next
  case (Cons a rows)
  from Cons[of "fst (fileController_deleteFile w u (file_id a))"]
    fileController_deleteFile_files[of w u "file_id a"]
  show ?case by auto
qed

lemma deleteFolder_success:
  assumes "deleteFolder fuel w u f = Some (w', Success r)"
  shows "\<exists>folder rest subs w1.
           select_folder (db w) f u = folder # rest \<and>
           w1 = delete_files_of (emit TxBegin w) u
                  (filter (\<lambda>r. file_folder_id r = Some f) (files (db w))) \<and>
           deleteFolder_getSubfolders fuel (db w1) f = Some subs \<and>
           w' = (emit TxCommit (clear_user_caches u (clear_parent_caches (parent_folder_id folder)
                  (cache_delete (''folder:'' @ toString f @ '':subfolders'')
                    (cache_delete (''folder:'' @ toString f @ '':contents'')
                      (cache_delete (''folder:'' @ toString f)
                        (emit (Sql DeleteFolderStmt)
                          (if subs \<noteq> [] then emit (Sql DeleteSubfoldersStmt) w1 else w1))))))))
                \<lparr>db := delete_folders [f]
                         (if subs \<noteq> [] then delete_folders subs (db w1) else db w1)\<rparr>"
  using assms
  by (auto simp: deleteFolder_def Let_def
      split: if_splits option.splits prod.splits list.splits)

lemma deleteFolder_order:
  assumes "\<not> faults w RedisCall" "deleteFolder fuel w u f = Some (w', Success r)"
  shows "invalidated_before_commit (new_events w w')"
proof -
  from deleteFolder_success[OF assms(2)] obtain folder :: folder_row and subs w1 where
    w1: "w1 = delete_files_of (emit TxBegin w) u
                  (filter (\<lambda>r. file_folder_id r = Some f) (files (db w)))" and
    w': "w' = (emit TxCommit (clear_user_caches u (clear_parent_caches (parent_folder_id folder)
                  (cache_delete (''folder:'' @ toString f @ '':subfolders'')
                    (cache_delete (''folder:'' @ toString f @ '':contents'')
                      (cache_delete (''folder:'' @ toString f)
                        (emit (Sql DeleteFolderStmt)
                          (if subs \<noteq> [] then emit (Sql DeleteSubfoldersStmt) w1 else w1))))))))
                \<lparr>db := delete_folders [f]
                         (if subs \<noteq> [] then delete_folders subs (db w1) else db w1)\<rparr>" by blast
  obtain evs where evs: "trace w1 = trace (emit TxBegin w) @ evs"
    unfolding w1 using delete_files_of_trace by blast
  have f1: "faults w1 = faults w" by (simp add: w1)
  let ?invs = "[CacheDelete (''folder:'' @ toString f),
                CacheDelete (''folder:'' @ toString f @ '':contents''),
                CacheDelete (''folder:'' @ toString f @ '':subfolders'')] @
               parent_invalidations (parent_folder_id folder) @ user_invalidations u"
  let ?pre = "TxBegin # evs @ (if subs \<noteq> [] then [Sql DeleteSubfoldersStmt] else [])"
  have "new_events w w' = ?pre @ Sql DeleteFolderStmt # ?invs @ [TxCommit]"
    using assms(1) by (simp add: w' new_events_def evs f1)
  then show ?thesis
    using invalidated_before_commitI[of ?invs ?pre DeleteFolderStmt] by simp
qed


subsection \<open>C10: the folder id 0 is read as the root level\<close>

text \<open>
  C10. For every world and owner, \<open>getFilesInFolder\<close> called with the folder id \<open>0\<close>
  does what it does for \<^verbatim>\<open>null\<close>, and this is what it does: it reads the owner-root key
  \<open>user:<owner>:root:files\<close> of the cache and returns the entry if there is one;
  otherwise, unless the query throws, it takes the owner's file rows whose folder id
  is NULL, ordered by name, stores the list under the owner-root key and returns it.
  \<open>getSubfolders\<close> does the same with the key \<open>user:<owner>:root:subfolders\<close> and
  the owner's folder rows whose parent is NULL. Both branch on the truthiness of the
  id, so \<open>0\<close> addresses the root level and never a folder.
\<close>

theorem folder_id_zero_is_root:
  "getFilesInFolder w userId (Some 0) = getFilesInFolder w userId None \<and>
   getFilesInFolder w userId (Some 0) =
     (case cache_get w (''user:'' @ toString userId @ '':root:files'') of
        Some cachedFiles \<Rightarrow> (w, Success cachedFiles)
      | None \<Rightarrow>
          if faults w SelectStmt then (w, Failure ''Failed to get files in folder'')
          else
            (cache_set (''user:'' @ toString userId @ '':root:files'')
               (FileListJson (map file_info_of (sort_key file_name
                  (filter (\<lambda>r. file_user_id r = userId \<and> file_folder_id r = None)
                     (files (db w)))))) w,
             Success (FileListJson (map file_info_of (sort_key file_name
                  (filter (\<lambda>r. file_user_id r = userId \<and> file_folder_id r = None)
                     (files (db w)))))))) \<and>
   getSubfolders w userId (Some 0) = getSubfolders w userId None \<and>
   getSubfolders w userId (Some 0) =
     (case cache_get w (''user:'' @ toString userId @ '':root:subfolders'') of
        Some cachedSubfolders \<Rightarrow> (w, Success cachedSubfolders)
      | None \<Rightarrow>
          if faults w SelectStmt then (w, Failure ''Failed to get subfolders'')
          else
            (cache_set (''user:'' @ toString userId @ '':root:subfolders'')
               (FolderListJson (map folder_info_of (sort_key folder_name
                  (filter (\<lambda>r. user_id r = userId \<and> parent_folder_id r = None)
                     (folders (db w)))))) w,
             Success (FolderListJson (map folder_info_of (sort_key folder_name
                  (filter (\<lambda>r. user_id r = userId \<and> parent_folder_id r = None)
                     (folders (db w))))))))"
  by (simp add: getFilesInFolder_def getSubfolders_def if_truthy_def at_level_def Let_def
        split: option.splits)

subsection \<open>C4: owner isolation of \<open>getFileDetails\<close>\<close>

text \<open>
  C4 (fails on the code). The file 1 belongs to owner 1. On a cold cache owner 2 is
  told \<open>File not found\<close>; once owner 1 has read the details, the entry cached under
  \<open>file:1\<close> is served to owner 2 as well: the cache key carries no owner and the
  cached branch returns before the owner-scoped query.
\<close>

theorem getFileDetails_leaks_through_cache:
  "file_user_id (hd (files (db with_file))) = 1 \<and>
   snd (getFileDetails with_file 2 1) = Failure ''File not found'' \<and>
   snd (getFileDetails (fst (getFileDetails with_file 1 1)) 2 1) =
     Success (FileJson \<lparr>fi_id = 1, fi_name = ''a.txt'', fi_size = 5,
                         fi_mime_type = ''text/plain'', fi_folder_id = Some 1\<rparr>)"
  by code_simp

subsection \<open>C6: folder names are not validated\<close>

text \<open>
  C6 (fails on the code). \<open>validateFolderName\<close> rejects \<open>a/b\<close> and \<open>x:y\<close>, but neither
  \<open>createFolder\<close> nor \<open>renameFolder\<close> calls it: both names are stored.
\<close>

theorem folder_names_not_validated:
  "validateFolderName ''a/b'' = Invalid ''Folder name contains invalid character: /'' \<and>
   snd (createFolder (startup ''/srv/uploads'') 1 ''a/b'' None) =
     Success (FolderJson \<lparr>fo_id = 2, fo_name = ''a/b'', fo_parent_folder_id = None\<rparr>) \<and>
   map folder_name (folders (db (fst (createFolder (startup ''/srv/uploads'') 1 ''a/b'' None)))) =
     [''Root'', ''a/b''] \<and>
   validateFolderName ''x:y'' = Invalid ''Folder name contains invalid character: :'' \<and>
   snd (renameFolder (startup ''/srv/uploads'') 1 1 ''x:y'') =
     Success (FolderJson \<lparr>fo_id = 1, fo_name = ''x:y'', fo_parent_folder_id = None\<rparr>) \<and>
   map folder_name (folders (db (fst (renameFolder (startup ''/srv/uploads'') 1 1 ''x:y'')))) =
     [''x:y'']"
  by code_simp

subsection \<open>C2: \<open>deleteFolder\<close> is not atomic\<close>

text \<open>
  C2 (fails on the code). Folder 1 holds the file 1. The statement that deletes the
  folder row throws in this run: \<open>deleteFolder\<close> rolls back and reports the failure,
  the folder row is still there, but the file row is gone for good, because
  \<open>fileController.deleteFile\<close> had already committed it on its own connection.
\<close>

theorem deleteFolder_not_atomic:
  "map file_id (files (db with_file)) = [1] \<and>
   map_option snd (deleteFolder 5 (with_file\<lparr>faults := (\<lambda>s. s = DeleteFolderStmt)\<rparr>) 1 1) =
     Some (Failure ''Failed to delete folder'') \<and>
   map_option (\<lambda>r. map folder_id (folders (db (fst r))))
     (deleteFolder 5 (with_file\<lparr>faults := (\<lambda>s. s = DeleteFolderStmt)\<rparr>) 1 1) = Some [1] \<and>
   map_option (\<lambda>r. files (db (fst r)))
     (deleteFolder 5 (with_file\<lparr>faults := (\<lambda>s. s = DeleteFolderStmt)\<rparr>) 1 1) = Some []"
  by code_simp

subsection \<open>C9: the path \<open>saveFile\<close> returns\<close>

text \<open>
  C9 (fails on the code). With the storage root written \<^verbatim>\<open>./uploads\<close>, as the README's
  \<^verbatim>\<open>.env\<close> has it, \<open>join\<close> normalises the root away from the spelling that
  \<open>replace\<close> looks for: the blob is written under the sharded path, but the path
  returned still starts with the storage root, and \<open>getFile\<close> resolves it to a place
  where nothing was written. With the root \<^verbatim>\<open>/srv/uploads\<close> the prefix is found and
  removed, and the path returned starts with the separator.
\<close>

theorem saveFile_returns_unresolvable_path:
  "snd (saveFile (startup ''./uploads'') uuid1 1 ''hello'' ''a.txt'') =
     Some (''uploads/user_1/123/e45/123e4567-e89b-12d3-a456-426614174000.txt'', uuid1) \<and>
   blobs (disk (fst (saveFile (startup ''./uploads'') uuid1 1 ''hello'' ''a.txt''))) =
     [(''uploads/user_1/123/e45/123e4567-e89b-12d3-a456-426614174000.txt'', ''hello'')] \<and>
   getFile (fst (saveFile (startup ''./uploads'') uuid1 1 ''hello'' ''a.txt''))
     ''uploads/user_1/123/e45/123e4567-e89b-12d3-a456-426614174000.txt'' = None \<and>
   snd (saveFile (startup ''/srv/uploads'') uuid1 1 ''hello'' ''a.txt'') =
     Some (''/user_1/123/e45/123e4567-e89b-12d3-a456-426614174000.txt'', uuid1)"
  by code_simp

subsection \<open>C5: invalidation and commit\<close>

text \<open>
  C5 (as stated, fails on the code). In the run of \<open>createFolder\<close> on the start-up
  world the two invalidations stand before the commit, not after it.
\<close>

theorem invalidation_not_after_commit:
  "\<not> invalidated_after_commit
       (new_events (startup ''/srv/uploads'')
          (fst (createFolder (startup ''/srv/uploads'') 1 ''Docs'' None)))"
  by code_simp

text \<open>
  C5 (amended). With the cache reachable, every successful run of \<open>createFolder\<close>,
  \<open>renameFolder\<close>, \<open>moveFolder\<close>, \<open>deleteFolder\<close>, \<open>uploadFile\<close> and \<open>deleteFile\<close> ends
  with the commit of its transaction, and the events right before that commit are its
  cache invalidations (at least one), themselves right after the last write of the
  transaction: the keys are invalidated inside the transaction, before the commit, and
  nothing is invalidated after it.
\<close>

theorem invalidation_precedes_commit:
  assumes "\<not> faults w RedisCall"
  shows "(\<forall>w' r. createFolder w u1 n1 p1 = (w', Success r) \<longrightarrow>
            invalidated_before_commit (new_events w w')) \<and>
         (\<forall>w' r. renameFolder w u2 f2 n2 = (w', Success r) \<longrightarrow>
            invalidated_before_commit (new_events w w')) \<and>
         (\<forall>fuel w' r. moveFolder fuel w u3 f3 p3 = Some (w', Success r) \<longrightarrow>
            invalidated_before_commit (new_events w w')) \<and>
         (\<forall>fuel w' r. deleteFolder fuel w u4 f4 = Some (w', Success r) \<longrightarrow>
            invalidated_before_commit (new_events w w')) \<and>
         (\<forall>w' r. uploadFile w uuid u5 upload fo5 = (w', Success r) \<longrightarrow>
            invalidated_before_commit (new_events w w')) \<and>
         (\<forall>w' r. fileController_deleteFile w u6 f6 = (w', Success r) \<longrightarrow>
            invalidated_before_commit (new_events w w'))"
  by (intro conjI allI impI;
      (erule createFolder_order[OF assms] | erule renameFolder_order[OF assms] |
       erule moveFolder_order[OF assms] | erule deleteFolder_order[OF assms] |
       erule uploadFile_order[OF assms] | erule fileController_deleteFile_order[OF assms]))

theorem invalidation_precedes_commit_witness:
  "invalidated_before_commit
     (new_events (startup ''/srv/uploads'')
        (fst (createFolder (startup ''/srv/uploads'') 1 ''Docs'' None))) \<and>
   invalidated_before_commit
     (new_events (startup ''/srv/uploads'')
        (fst (uploadFile (startup ''/srv/uploads'') uuid1 1 a_txt (Some 1)))) \<and>
   new_events (startup ''/srv/uploads'')
     (fst (createFolder (startup ''/srv/uploads'') 1 ''Docs'' None)) =
     [TxBegin, Sql InsertFolderStmt, CacheDelete ''user:1:folders'',
      CacheDeleteByPattern ''user:1:folder_tree*'', TxCommit]"
proof -
  let ?w = "startup ''/srv/uploads''"
  have up: "\<not> faults ?w RedisCall"
    by (simp add: startup_def)
  have c: "snd (createFolder ?w 1 ''Docs'' None) =
             Success (FolderJson \<lparr>fo_id = 2, fo_name = ''Docs'', fo_parent_folder_id = None\<rparr>)"
    by code_simp
  have f: "snd (uploadFile ?w uuid1 1 a_txt (Some 1)) =
             Success (FileJson \<lparr>fi_id = 1, fi_name = ''a.txt'', fi_size = 5,
                                 fi_mime_type = ''text/plain'', fi_folder_id = None\<rparr>)"
    by code_simp
  have t: "new_events ?w (fst (createFolder ?w 1 ''Docs'' None)) =
     [TxBegin, Sql InsertFolderStmt, CacheDelete ''user:1:folders'',
      CacheDeleteByPattern ''user:1:folder_tree*'', TxCommit]"
    by code_simp
  from invalidation_precedes_commit[OF up, of 1 "''Docs''" None _ _ _ _ _ _ _ _ uuid1 1 a_txt "Some 1"]
  show ?thesis
    using c f t by (metis prod.collapse)
qed

subsection \<open>C7: the blob, the row and the path the row stores\<close>

lemma mkdir_recursive_blobs:
  "mkdir_recursive dir fs = Some fs' \<Longrightarrow> blobs fs' = blobs fs"
  by (auto simp: mkdir_recursive_def Let_def split: if_splits)

lemma fst_set_replace:
  "fst ` set ((p, v) # filter (\<lambda>b. fst b \<noteq> p) bs) = insert p (fst ` set bs)"
proof -
  have "fst ` {x \<in> set bs. fst x \<noteq> p} = fst ` set bs - {p}"
    by force
  then show ?thesis by auto
qed

lemma writeFile_blobs:
  assumes "writeFile path data fs = Some fs'"
  shows "map_of (blobs fs') path = Some data \<and>
         fst ` set (blobs fs') = insert path (fst ` set (blobs fs))"
proof -
  from assms have "blobs fs' = (path, data) # filter (\<lambda>b. fst b \<noteq> path) (blobs fs)"
    by (auto simp: writeFile_def split: if_splits)
  then show ?thesis
    by (simp only: fst_set_replace) simp
qed

lemma saveFile_cases:
  assumes "saveFile w uuid u data n = (w1, res)"
  shows "fst ` set (blobs (disk w)) \<subseteq> fst ` set (blobs (disk w1)) \<and>
         (case res of
            None \<Rightarrow> trace w1 = trace w
          | Some (path, i) \<Rightarrow>
              i = uuid \<and>
              (\<exists>full. trace w1 = trace w @ [BlobWrite full] \<and>
                      path = replace_first (UPLOAD_DIR w) [] full \<and>
                      map_of (blobs (disk w1)) full = Some data \<and>
                      full \<in> fst ` set (blobs (disk w1))))"
proof -
  let ?dir = "join [getUserStorageDir w u, take 3 uuid, take 3 (drop 3 uuid)]"
  let ?full = "join [?dir, uuid @ extname n]"
  show ?thesis
  proof (cases "faults w DiskWrite")
    case True
    with assms show ?thesis by (simp add: saveFile_def)
  next
    case False
    show ?thesis
    proof (cases "mkdir_recursive ?dir (disk w)")
      case None
      with assms False show ?thesis by (simp add: saveFile_def)
    next
      case (Some fs1)
      note m = mkdir_recursive_blobs[OF Some]
      show ?thesis
      proof (cases "writeFile ?full data fs1")
        case None
        with assms False Some have "w1 = w\<lparr>disk := fs1\<rparr>" "res = None"
          by (simp_all add: saveFile_def)
        then show ?thesis using m by simp
      next
        case wr: (Some fs2)
        with assms False Some have
          "w1 = emit (BlobWrite ?full) (w\<lparr>disk := fs2\<rparr>)"
          "res = Some (replace_first (UPLOAD_DIR w) [] ?full, uuid)"
          by (simp_all add: saveFile_def Let_def)
        then show ?thesis
          using m writeFile_blobs[OF wr] by auto
      qed
    qed
  qed
qed

text \<open>The world of a failed or successful upload, in terms of the blob written.\<close>

lemma uploadFile_cases:
  assumes "uploadFile w uuid u file fo = (w', r)"
  shows "fst ` set (blobs (disk w)) \<subseteq> fst ` set (blobs (disk w')) \<and> UPLOAD_DIR w' = UPLOAD_DIR w \<and>
         (files (db w') = files (db w) \<or>
          (\<exists>p row post. new_events w w' = TxBegin # BlobWrite p # Sql InsertFileStmt # post \<and>
                   map_of (blobs (disk w')) p = Some (uf_content file) \<and>
                   p \<in> fst ` set (blobs (disk w')) \<and>
                   files (db w') = files (db w) @ [row] \<and>
                   file_path row = replace_first (UPLOAD_DIR w) [] p))"
proof -
  obtain w1 res where sv: "saveFile (emit TxBegin w) uuid u (uf_content file) (uf_name file) = (w1, res)"
    by (cases "saveFile (emit TxBegin w) uuid u (uf_content file) (uf_name file)")
  have fr: "db w1 = db w" "faults w1 = faults w" "UPLOAD_DIR w1 = UPLOAD_DIR w"
    using saveFile_frame(1,3,4)[of "emit TxBegin w" uuid u "uf_content file" "uf_name file"]
    by (simp_all add: sv)
  from saveFile_cases[OF sv]
  have sub: "fst ` set (blobs (disk w)) \<subseteq> fst ` set (blobs (disk w1))"
    by simp
  show ?thesis
  proof (cases res)
    case None
    from assms have "w' = emit TxRollback w1"
      by (simp add: uploadFile_def sv None)
    then show ?thesis
      using sub by (simp add: fr)
  next
    case (Some a)
    obtain path i where a: "a = (path, i)" by (cases a)
    from saveFile_cases[OF sv] Some a obtain full where
      full: "trace w1 = trace w @ [TxBegin, BlobWrite full]"
        "path = replace_first (UPLOAD_DIR w) [] full"
        "map_of (blobs (disk w1)) full = Some (uf_content file)"
        "full \<in> fst ` set (blobs (disk w1))"
      by auto
    show ?thesis
    proof (cases "insert_file u fo (uf_name file) path (uf_type file) (uf_size file) (db w)")
      case None
      from assms have "w' = emit TxRollback w1"
        by (simp add: uploadFile_def sv \<open>res = Some a\<close> a fr None split: if_splits)
      then show ?thesis
        using sub by (simp add: fr)
    next
      case (Some b)
      obtain fileDbId d' where b: "b = (fileDbId, d')" by (cases b)
      let ?row = "\<lparr>file_id = next_file_id (db w), file_user_id = u, file_folder_id = fo,
            file_name = uf_name file, file_path = path, mime_type = uf_type file,
            file_size = uf_size file\<rparr>"
      from Some b have d': "files d' = files (db w) @ [?row]"
        by (auto simp: insert_file_def Let_def split: if_splits)
      from assms have
        "(db w' = db w \<and> disk w' = disk w1 \<and> UPLOAD_DIR w' = UPLOAD_DIR w) \<or>
         (db w' = d' \<and> disk w' = disk w1 \<and> UPLOAD_DIR w' = UPLOAD_DIR w \<and>
          (\<exists>post. trace w' = trace w1 @ Sql InsertFileStmt # post))"
        by (auto simp: uploadFile_def sv \<open>res = Some a\<close> a fr Some b Let_def
            split: if_splits list.splits)
      then show ?thesis
      proof
        assume "db w' = db w \<and> disk w' = disk w1 \<and> UPLOAD_DIR w' = UPLOAD_DIR w"
        then show ?thesis using sub by simp
      next
        assume c: "db w' = d' \<and> disk w' = disk w1 \<and> UPLOAD_DIR w' = UPLOAD_DIR w \<and>
          (\<exists>post. trace w' = trace w1 @ Sql InsertFileStmt # post)"
        then obtain post where post: "trace w' = trace w1 @ Sql InsertFileStmt # post" by blast
        have ne: "new_events w w' = TxBegin # BlobWrite full # Sql InsertFileStmt # post"
          by (simp add: new_events_def post full(1))
        have "files (db w') = files (db w) @ [?row]" "file_path ?row = replace_first (UPLOAD_DIR w) [] full"
          using c d' full(2) by simp_all
        then show ?thesis
          using sub c ne full(3,4) by auto
      qed
    qed
  qed
qed

text \<open>
  When the blob was saved and the insert throws, the method reports the failure, the
  run ends with the rollback, the table is unchanged and the blob stays on the disk.
\<close>

lemma uploadFile_insert_fails:
  assumes "uploadFile w uuid u file fo = (w', r)"
    and "snd (saveFile (emit TxBegin w) uuid u (uf_content file) (uf_name file)) = Some (path, uuid)"
    and "insert_file u fo (uf_name file) path (uf_type file) (uf_size file) (db w) = None"
  shows "r = Failure ''Failed to upload file'' \<and> files (db w') = files (db w) \<and>
         last (new_events w w') = TxRollback \<and>
         (\<exists>p. BlobWrite p \<in> set (new_events w w') \<and>
              map_of (blobs (disk w')) p = Some (uf_content file) \<and>
              path = replace_first (UPLOAD_DIR w) [] p)"
proof -
  obtain w1 where sv: "saveFile (emit TxBegin w) uuid u (uf_content file) (uf_name file) =
      (w1, Some (path, uuid))"
    using assms(2) by (cases "saveFile (emit TxBegin w) uuid u (uf_content file) (uf_name file)") simp
  have fr: "db w1 = db w" "faults w1 = faults w"
    using saveFile_frame(1,3)[of "emit TxBegin w" uuid u "uf_content file" "uf_name file"]
    by (simp_all add: sv)
  from saveFile_cases[OF sv] obtain full where
    full: "trace w1 = trace w @ [TxBegin, BlobWrite full]"
      "path = replace_first (UPLOAD_DIR w) [] full"
      "map_of (blobs (disk w1)) full = Some (uf_content file)"
    by auto
  from assms(1) have "w' = emit TxRollback w1" "r = Failure ''Failed to upload file''"
    by (simp_all add: uploadFile_def sv fr assms(3) split: if_splits)
  then show ?thesis
    using full by (auto simp: fr new_events_def)
qed


text \<open>
  C7 (fails on the code). The order is as the claim has it: by \<open>uploadFile_cases\<close> a new
  row is only there after the blob was written. But the row stores what \<open>saveFile\<close>
  returned, and the blob store resolves a stored path below the storage root. With the
  root written \<^verbatim>\<open>./uploads\<close>, as the README's \<^verbatim>\<open>.env\<close> has it, the upload succeeds and
  commits a row whose path still carries the root: resolved, it names
  \<^verbatim>\<open>uploads/uploads/...\<close>, where no blob was ever written, and \<open>getFile\<close> on the stored
  path throws. With the root \<^verbatim>\<open>/srv/uploads\<close> the row of the same upload resolves to its
  blob.
\<close>

theorem upload_commits_unresolvable_path:
  "snd readme_upload =
     Success (FileJson \<lparr>fi_id = 1, fi_name = ''a.txt'', fi_size = 5,
                         fi_mime_type = ''text/plain'', fi_folder_id = None\<rparr>) \<and>
   trace (fst readme_upload) =
     [TxBegin,
      BlobWrite ''uploads/user_1/123/e45/123e4567-e89b-12d3-a456-426614174000.txt'',
      Sql InsertFileStmt, CacheDelete ''folder:1:contents'', CacheDelete ''user:1:folders'',
      TxCommit] \<and>
   map fst (blobs (disk (fst readme_upload))) =
     [''uploads/user_1/123/e45/123e4567-e89b-12d3-a456-426614174000.txt''] \<and>
   map file_path (files (db (fst readme_upload))) =
     [''uploads/user_1/123/e45/123e4567-e89b-12d3-a456-426614174000.txt''] \<and>
   join [UPLOAD_DIR (fst readme_upload),
         ''uploads/user_1/123/e45/123e4567-e89b-12d3-a456-426614174000.txt''] =
     ''uploads/uploads/user_1/123/e45/123e4567-e89b-12d3-a456-426614174000.txt'' \<and>
   getFile (fst readme_upload)
     ''uploads/user_1/123/e45/123e4567-e89b-12d3-a456-426614174000.txt'' = None \<and>
   \<not> blob_backed (fst readme_upload) \<and>
   blob_backed with_file"
  by code_simp

subsection \<open>C1: deleteFolder removes the subtree\<close>

lemma those_map_Some:
  "those (map f xs) = Some ys \<longleftrightarrow> (\<forall>x\<in>set xs. f x \<noteq> None) \<and> ys = map (\<lambda>x. the (f x)) xs"
  by (induction xs arbitrary: ys) (auto split: option.splits)

lemma those_map_None:
  "those (map f xs) = None \<longleftrightarrow> (\<exists>x\<in>set xs. f x = None)"
  by (induction xs) (auto split: option.splits)

lemma select_children_iff:
  "c \<in> set (select_children d a) \<longleftrightarrow>
     (\<exists>r\<in>set (folders d). parent_folder_id r = Some a \<and> folder_id r = c)"
  by (auto simp: select_children_def)

lemma descendant_trans:
  "descendant fs c i \<Longrightarrow> descendant fs a c \<Longrightarrow> descendant fs a i"
  by (induction rule: descendant.induct) (auto intro: descendant.below)

lemma descendant_first:
  "descendant fs a i \<Longrightarrow>
     \<exists>r\<in>set fs. parent_folder_id r = Some a \<and> in_subtree fs (folder_id r) i"
proof (induction rule: descendant.induct)
  case (child r)
  then show ?case by (auto simp: in_subtree_def)
next
  case (below p r)
  then obtain c where c: "c \<in> set fs" "parent_folder_id c = Some a" "in_subtree fs (folder_id c) p"
    by blast
  from c(3) below(2,3) have "in_subtree fs (folder_id c) (folder_id r)"
    unfolding in_subtree_def by (auto intro: descendant.intros)
  with c show ?case by blast
qed

lemma descendant_exists:
  "descendant fs a i \<Longrightarrow> i \<in> folder_id ` set fs"
  by (induction rule: descendant.induct) auto

text \<open>What the local \<open>getSubfolders\<close> returns: exactly the folders below.\<close>

lemma getSubfolders_Suc:
  assumes a: "deleteFolder_getSubfolders n d a = Some ids"
  shows "\<exists>m. n = Suc m \<and> (\<forall>c\<in>set (select_children d a). deleteFolder_getSubfolders m d c \<noteq> None) \<and>
         ids = concat (map (\<lambda>c. c # the (deleteFolder_getSubfolders m d c)) (select_children d a))"
proof (cases n)
  case 0
  with a show ?thesis by simp
next
  case (Suc m)
  let ?g = "\<lambda>sub. map_option (Cons sub) (deleteFolder_getSubfolders m d sub)"
  from a Suc obtain yss where y: "those (map ?g (select_children d a)) = Some yss" "ids = concat yss"
    by auto
  from y(1) have tot: "\<forall>c\<in>set (select_children d a). deleteFolder_getSubfolders m d c \<noteq> None"
    and yss: "yss = map (\<lambda>x. the (?g x)) (select_children d a)"
    by (auto simp: those_map_Some)
  have "map (\<lambda>x. the (?g x)) (select_children d a) =
        map (\<lambda>c. c # the (deleteFolder_getSubfolders m d c)) (select_children d a)"
    using tot by (intro map_cong) auto
  with Suc tot y(2) yss show ?thesis by simp
qed

lemma getSubfolders_closed:
  "deleteFolder_getSubfolders n d a = Some ids \<Longrightarrow>
     set (select_children d a) \<subseteq> set ids \<and>
     (\<forall>p\<in>set ids. set (select_children d p) \<subseteq> set ids) \<and>
     (\<forall>i\<in>set ids. descendant (folders d) a i)"
proof (induction n arbitrary: a ids)
  case 0
  then show ?case by simp
next
  case (Suc n)
  let ?cs = "select_children d a"
  let ?sub = "\<lambda>c. the (deleteFolder_getSubfolders n d c)"
  from getSubfolders_Suc[OF Suc.prems]
  have tot: "\<forall>c\<in>set ?cs. deleteFolder_getSubfolders n d c \<noteq> None"
    and ids: "ids = concat (map (\<lambda>c. c # ?sub c) ?cs)"
    by auto
  have ih: "set (select_children d c) \<subseteq> set (?sub c) \<and>
            (\<forall>p\<in>set (?sub c). set (select_children d p) \<subseteq> set (?sub c)) \<and>
            (\<forall>i\<in>set (?sub c). descendant (folders d) c i)" if "c \<in> set ?cs" for c
    using Suc.IH[of c "?sub c"] tot that by auto
  have 1: "set ?cs \<subseteq> set ids"
    unfolding ids by auto
  have 2: "set (select_children d p) \<subseteq> set ids" if "p \<in> set ids" for p
  proof -
    from that obtain c where c: "c \<in> set ?cs" "p = c \<or> p \<in> set (?sub c)"
      unfolding ids by auto
    with ih[OF c(1)] have "set (select_children d p) \<subseteq> set (?sub c)" by auto
    also have "\<dots> \<subseteq> set ids" unfolding ids using c(1) by auto
    finally show ?thesis .
  qed
  have 3: "descendant (folders d) a i" if "i \<in> set ids" for i
  proof -
    from that obtain c where c: "c \<in> set ?cs" "i = c \<or> i \<in> set (?sub c)"
      unfolding ids by auto
    from c(1) have ca: "descendant (folders d) a c"
      by (auto simp: select_children_iff intro: descendant.child)
    from c(2) show ?thesis
    proof
      assume "i = c" with ca show ?thesis by simp
    next
      assume "i \<in> set (?sub c)"
      with ih[OF c(1)] have "descendant (folders d) c i" by auto
      then show ?thesis using ca by (rule descendant_trans)
    qed
  qed
  from 1 2 3 show ?case by blast
qed

lemma getSubfolders_complete:
  assumes "deleteFolder_getSubfolders n d a = Some ids"
  shows "descendant (folders d) a i \<Longrightarrow> i \<in> set ids"
proof (induction rule: descendant.induct)
  case (child r)
  then have "folder_id r \<in> set (select_children d a)"
    by (auto simp: select_children_iff)
  then show ?case using getSubfolders_closed[OF assms] by auto
next
  case (below p r)
  then have "folder_id r \<in> set (select_children d p)"
    by (auto simp: select_children_iff)
  then show ?case using getSubfolders_closed[OF assms] below.IH by auto
qed

lemma getSubfolders_set:
  "deleteFolder_getSubfolders n d a = Some ids \<Longrightarrow>
     set ids = {i. descendant (folders d) a i}"
  using getSubfolders_closed getSubfolders_complete by blast

lemma cascade_closed:
  "closed_under_children fs (set gone) \<Longrightarrow> set (cascade n fs gone) = set gone"
proof (induction n arbitrary: gone)
  case 0
  then show ?case by simp
next
  case (Suc n)
  let ?more = "map folder_id (filter (\<lambda>r. case parent_folder_id r of None \<Rightarrow> False
                                            | Some p \<Rightarrow> p \<in> set gone) fs)"
  from Suc.prems have "set ?more \<subseteq> set gone"
    by (auto simp: closed_under_children_def split: option.splits)
  then have eq: "set (gone @ ?more) = set gone" by auto
  with Suc.prems have "closed_under_children fs (set (gone @ ?more))" by simp
  from Suc.IH[OF this] eq show ?case by simp
qed

lemma delete_folders_closed:
  assumes "closed_under_children (folders d) S" "S = set ids \<inter> folder_id ` set (folders d)"
  shows "folders (delete_folders ids d) = filter (\<lambda>r. folder_id r \<notin> set ids) (folders d)"
    and "files (delete_folders ids d) =
           filter (\<lambda>r. case file_folder_id r of None \<Rightarrow> True | Some p \<Rightarrow> p \<notin> S) (files d)"
    and "next_folder_id (delete_folders ids d) = next_folder_id d"
proof -
  let ?ex = "filter (\<lambda>i. folder_exists (folders d) i) ids"
  have s: "set ?ex = S" using assms(2) by (auto simp: folder_exists_def)
  with assms(1) have c: "set (cascade (length (folders d)) (folders d) ?ex) = S"
    using cascade_closed[of "folders d" ?ex] by simp
  show "folders (delete_folders ids d) = filter (\<lambda>r. folder_id r \<notin> set ids) (folders d)"
    unfolding delete_folders_def Let_def using c assms(2)
    by (auto intro!: filter_cong)
  show "files (delete_folders ids d) =
           filter (\<lambda>r. case file_folder_id r of None \<Rightarrow> True | Some p \<Rightarrow> p \<notin> S) (files d)"
    unfolding delete_folders_def Let_def by (simp add: c cong: option.case_cong)
  show "next_folder_id (delete_folders ids d) = next_folder_id d"
    by (simp add: delete_folders_def Let_def)
qed

lemma descendants_closed:
  "closed_under_children fs {i. descendant fs a i}"
  by (auto simp: closed_under_children_def intro: descendant.below)

text \<open>The two DELETE statements of \<open>deleteFolder\<close>, on the table \<open>d\<close>.\<close>

lemma delete_subtree:
  assumes subs: "set subs = {i. descendant (folders d) a i}"
  defines "d2 \<equiv> delete_folders [a] (if subs \<noteq> [] then delete_folders subs d else d)"
  shows "folders d2 = filter (\<lambda>r. \<not> in_subtree (folders d) a (folder_id r)) (folders d)"
    and "a \<in> folder_id ` set (folders d) \<Longrightarrow>
         files d2 = filter (\<lambda>r. case file_folder_id r of None \<Rightarrow> True
                                  | Some p \<Rightarrow> \<not> in_subtree (folders d) a p) (files d)"
    and "next_folder_id d2 = next_folder_id d"
proof -
  let ?fs = "folders d"
  define d1 where "d1 = (if subs \<noteq> [] then delete_folders subs d else d)"
  have ex: "set subs \<subseteq> folder_id ` set ?fs"
    using subs descendant_exists by auto
  then have i1: "set subs = set subs \<inter> folder_id ` set ?fs" by auto
  have c1: "closed_under_children ?fs (set subs)"
    unfolding subs by (rule descendants_closed)
  have f1: "folders d1 = filter (\<lambda>r. folder_id r \<notin> set subs) ?fs"
    using delete_folders_closed(1)[OF c1 i1] by (cases "subs = []") (simp_all add: d1_def)
  have g1: "files d1 = filter (\<lambda>r. case file_folder_id r of None \<Rightarrow> True
                                   | Some p \<Rightarrow> p \<notin> set subs) (files d)"
    using delete_folders_closed(2)[OF c1 i1]
    by (cases "subs = []") (auto simp: d1_def intro!: filter_True[symmetric] split: option.splits)
  have n1: "next_folder_id d1 = next_folder_id d"
    using delete_folders_closed(3)[OF c1 i1] by (cases "subs = []") (simp_all add: d1_def)
  define S where "S = set [a] \<inter> folder_id ` set (folders d1)"
  have c2: "closed_under_children (folders d1) S"
    unfolding closed_under_children_def S_def f1
    using subs by (auto intro: descendant.child)
  have d2: "d2 = delete_folders [a] d1" by (simp add: d2_def d1_def)
  note df = delete_folders_closed[OF c2 S_def, folded d2]
  show "folders d2 = filter (\<lambda>r. \<not> in_subtree ?fs a (folder_id r)) ?fs"
    using df(1) f1 subs by (auto simp: in_subtree_def intro!: filter_cong)
  show "next_folder_id d2 = next_folder_id d"
    using df(3) n1 by simp
  show "files d2 = filter (\<lambda>r. case file_folder_id r of None \<Rightarrow> True
                                  | Some p \<Rightarrow> \<not> in_subtree ?fs a p) (files d)"
    if a: "a \<in> folder_id ` set ?fs"
  proof -
    have S: "p \<notin> S \<and> p \<notin> set subs \<longleftrightarrow> \<not> in_subtree ?fs a p" for p
    proof (cases "a \<in> set subs")
      case True
      then show ?thesis
        using subs by (auto simp: S_def f1 in_subtree_def)
    next
      case False
      with a have "S = {a}" by (auto simp: S_def f1)
      then show ?thesis using subs by (auto simp: in_subtree_def)
    qed
    show ?thesis
      unfolding df(2) g1 filter_filter
      by (rule filter_cong) (auto simp: S[symmetric] split: option.splits)
  qed
qed

lemma select_folder_hd:
  assumes "select_folder d i u = r # rest"
  shows "r \<in> set (folders d) \<and> folder_id r = i \<and> user_id r = u"
proof -
  have "r \<in> set (select_folder d i u)" by (simp add: assms)
  then show ?thesis by (simp add: select_folder_def)
qed

lemma select_folder_exists:
  "select_folder d i u = r # rest \<Longrightarrow> i \<in> folder_id ` set (folders d)"
  using select_folder_hd by blast

lemma deleteFolder_effect:
  assumes "deleteFolder fuel w u a = Some (w', Success r)"
  shows "folders (db w') = filter (\<lambda>r. \<not> in_subtree (folders (db w)) a (folder_id r)) (folders (db w))"
    and "next_folder_id (db w') = next_folder_id (db w)"
    and "set (files (db w')) \<subseteq> set (files (db w))"
    and "\<forall>x\<in>set (files (db w')). \<forall>i. file_folder_id x = Some i \<longrightarrow> \<not> in_subtree (folders (db w)) a i"
proof -
  from deleteFolder_success[OF assms] obtain folder :: folder_row and rest subs w1 where
    sel: "select_folder (db w) a u = folder # rest" and
    w1: "w1 = delete_files_of (emit TxBegin w) u
                  (filter (\<lambda>r. file_folder_id r = Some a) (files (db w)))" and
    gs: "deleteFolder_getSubfolders fuel (db w1) a = Some subs" and
    dbw': "db w' = delete_folders [a] (if subs \<noteq> [] then delete_folders subs (db w1) else db w1)"
    by auto
  have fw1: "folders (db w1) = folders (db w)" "next_folder_id (db w1) = next_folder_id (db w)"
    by (simp_all add: w1)
  have fl: "set (files (db w1)) \<subseteq> set (files (db w))"
    unfolding w1 using delete_files_of_files[of "emit TxBegin w"] by simp
  from getSubfolders_set[OF gs] have subs: "set subs = {i. descendant (folders (db w1)) a i}" .
  have ex: "a \<in> folder_id ` set (folders (db w1))"
    using select_folder_exists[OF sel] fw1 by simp
  note ds = delete_subtree[OF subs, folded dbw']
  show "folders (db w') = filter (\<lambda>r. \<not> in_subtree (folders (db w)) a (folder_id r)) (folders (db w))"
    using ds(1) fw1 by simp
  show "next_folder_id (db w') = next_folder_id (db w)"
    using ds(3) fw1 by simp
  show "set (files (db w')) \<subseteq> set (files (db w))"
    using ds(2)[OF ex] fl by auto
  show "\<forall>x\<in>set (files (db w')). \<forall>i. file_folder_id x = Some i \<longrightarrow> \<not> in_subtree (folders (db w)) a i"
    using ds(2)[OF ex] fw1 by auto
qed

lemma in_subtree_child:
  "in_subtree fs a p \<Longrightarrow> x \<in> set fs \<Longrightarrow> parent_folder_id x = Some p \<Longrightarrow>
   in_subtree fs a (folder_id x)"
  unfolding in_subtree_def by (auto intro: descendant.intros)

text \<open>
  C1. After a successful \<open>deleteFolder\<close> the folder table is the old one without the
  rows of the subtree of the folder (the folder and every folder below it); no file
  row is new, and no file row and no folder row that is left refers to a folder of the
  subtree, be it as its folder, as its parent or as its own id. The file rows of the
  folders below are removed by the cascade of the foreign key \<open>files.folder_id\<close>,
  not by the controller, which deletes the files of the folder itself only.
\<close>

theorem deleteFolder_removes_subtree:
  assumes "deleteFolder fuel w userId folderId = Some (w', Success r)"
  shows "folders (db w') =
           filter (\<lambda>x. \<not> in_subtree (folders (db w)) folderId (folder_id x)) (folders (db w)) \<and>
         set (files (db w')) \<subseteq> set (files (db w)) \<and>
         (\<forall>x\<in>set (files (db w')). \<forall>i. in_subtree (folders (db w)) folderId i \<longrightarrow>
              file_folder_id x \<noteq> Some i) \<and>
         (\<forall>x\<in>set (folders (db w')). \<forall>i. in_subtree (folders (db w)) folderId i \<longrightarrow>
              folder_id x \<noteq> i \<and> parent_folder_id x \<noteq> Some i)"
proof -
  note e = deleteFolder_effect[OF assms]
  have "folder_id x \<noteq> i \<and> parent_folder_id x \<noteq> Some i"
    if x: "x \<in> set (folders (db w'))" and i: "in_subtree (folders (db w)) folderId i" for x i
  proof -
    from x e(1) have xs: "x \<in> set (folders (db w))"
      "\<not> in_subtree (folders (db w)) folderId (folder_id x)" by auto
    with i in_subtree_child[OF i xs(1)] show ?thesis by auto
  qed
  with e show ?thesis by blast
qed

theorem deleteFolder_removes_subtree_witness:
  "map file_folder_id (files (db nested_world)) = [Some 1, Some 2] \<and>
   map parent_folder_id (folders (db nested_world)) = [None, Some 1] \<and>
   map_option snd (deleteFolder 5 nested_world 1 1) = Some (Success NoPayload) \<and>
   files (db (fst (the (deleteFolder 5 nested_world 1 1)))) = [] \<and>
   folders (db (fst (the (deleteFolder 5 nested_world 1 1)))) = [] \<and>
   folders (db (fst (the (deleteFolder 5 nested_world 1 1)))) =
     filter (\<lambda>x. \<not> in_subtree (folders (db nested_world)) 1 (folder_id x))
       (folders (db nested_world))"
proof -
  have a: "map file_folder_id (files (db nested_world)) = [Some 1, Some 2]"
    by code_simp
  have b: "map parent_folder_id (folders (db nested_world)) = [None, Some 1]"
    by code_simp
  have c: "map_option snd (deleteFolder 5 nested_world 1 1) = Some (Success NoPayload)"
    by code_simp
  have d: "files (db (fst (the (deleteFolder 5 nested_world 1 1)))) = []"
    by code_simp
  have e: "folders (db (fst (the (deleteFolder 5 nested_world 1 1)))) = []"
    by code_simp
  from c have "deleteFolder 5 nested_world 1 1 =
      Some (fst (the (deleteFolder 5 nested_world 1 1)), Success NoPayload)"
    by (cases "deleteFolder 5 nested_world 1 1") auto
  from deleteFolder_removes_subtree[OF this] a b c d e show ?thesis
    by simp
qed

subsection \<open>C3: moves into the own subtree are refused and the forest is kept\<close>

lemma rooted_mono:
  "rooted fs r \<Longrightarrow> set fs \<subseteq> set fs' \<Longrightarrow> rooted fs' r"
  by (induction rule: rooted.induct) (auto intro: rooted.intros)

lemma rooted_map:
  assumes "\<And>x. folder_id (h x) = folder_id x" "\<And>x. parent_folder_id (h x) = parent_folder_id x"
  shows "rooted fs r \<Longrightarrow> rooted (map h fs) (h r)"
proof (induction rule: rooted.induct)
  case (top r)
  then show ?case by (simp add: assms rooted.top)
next
  case (under r p g)
  show ?case
    by (rule rooted.under[of _ p "h g"]) (use under assms in auto)
qed

lemma unique_row:
  "distinct (map folder_id fs) \<Longrightarrow> r \<in> set fs \<Longrightarrow> g \<in> set fs \<Longrightarrow>
   folder_id r = folder_id g \<Longrightarrow> r = g"
  by (auto simp: distinct_map dest: inj_onD)

lemma descendant_last:
  "descendant fs a i \<Longrightarrow>
     \<exists>r\<in>set fs. folder_id r = i \<and> (\<exists>p. parent_folder_id r = Some p \<and> in_subtree fs a p)"
  by (induction rule: descendant.induct) (auto simp: in_subtree_def)

lemma rooted_not_below_itself:
  assumes d: "distinct (map folder_id fs)"
  shows "rooted fs r \<Longrightarrow> r \<in> set fs \<Longrightarrow> \<not> descendant fs (folder_id r) (folder_id r)"
proof (induction rule: rooted.induct)
  case (top r)
  show ?case
  proof
    assume "descendant fs (folder_id r) (folder_id r)"
    from descendant_last[OF this] obtain r' p where
      "r' \<in> set fs" "folder_id r' = folder_id r" "parent_folder_id r' = Some p" by blast
    with unique_row[OF d this(1) top(2)] top(1) show False by simp
  qed
next
  case (under r p g)
  show ?case
  proof
    assume c: "descendant fs (folder_id r) (folder_id r)"
    from descendant_last[OF this] obtain r' p' where
      r': "r' \<in> set fs" "folder_id r' = folder_id r" "parent_folder_id r' = Some p'"
        "in_subtree fs (folder_id r) p'" by blast
    with unique_row[OF d r'(1) under.prems] under(1) have p: "in_subtree fs (folder_id r) p"
      by simp
    have pr: "descendant fs p (folder_id r)"
      using under.prems under(1) by (rule descendant.child)
    have "descendant fs p p"
    proof (cases "p = folder_id r")
      case True
      with pr show ?thesis by simp
    next
      case False
      with p have "descendant fs (folder_id r) p" by (simp add: in_subtree_def)
      then show ?thesis using pr by (rule descendant_trans)
    qed
    with under(3) under.IH[OF under(2)] show False by simp
  qed
qed

lemma forest_not_below_itself:
  assumes "acyclic_forest fs"
  shows "\<not> descendant fs c c"
proof
  assume c: "descendant fs c c"
  from descendant_exists[OF c] obtain r where r: "r \<in> set fs" "folder_id r = c" by auto
  with assms rooted_not_below_itself[of fs r] c show False
    by (auto simp: acyclic_forest_def)
qed

text \<open>The number of folders below a folder bounds the depth of a search from it.\<close>

lemma finite_descendants [simp]: "finite {i. descendant fs c i}"
  by (rule finite_subset[of _ "folder_id ` set fs"]) (auto dest: descendant_exists)

lemma card_descendants_le: "card {i. descendant fs c i} \<le> length fs"
proof -
  have "card {i. descendant fs c i} \<le> card (folder_id ` set fs)"
    by (rule card_mono) (auto dest: descendant_exists)
  also have "\<dots> \<le> card (set fs)" by (rule card_image_le) simp
  also have "\<dots> \<le> length fs" by (rule card_length)
  finally show ?thesis .
qed

lemma card_descendants_child:
  assumes "acyclic_forest fs" "r \<in> set fs" "parent_folder_id r = Some c"
  shows "card {i. descendant fs (folder_id r) i} < card {i. descendant fs c i}"
proof (rule psubset_card_mono)
  have rc: "descendant fs c (folder_id r)"
    using assms(2,3) by (rule descendant.child)
  have "{i. descendant fs (folder_id r) i} \<subseteq> {i. descendant fs c i}"
    using rc by (auto intro: descendant_trans)
  moreover have "folder_id r \<in> {i. descendant fs c i}" using rc by simp
  moreover have "folder_id r \<notin> {i. descendant fs (folder_id r) i}"
    using forest_not_below_itself[OF assms(1)] by simp
  ultimately show "{i. descendant fs (folder_id r) i} \<subset> {i. descendant fs c i}" by blast
qed simp

lemma first_true_None:
  "first_true f xs = None \<Longrightarrow> \<exists>x\<in>set xs. f x = None"
  by (induction xs) (auto split: option.splits bool.splits)

lemma first_true_False:
  "first_true f xs = Some False \<Longrightarrow> \<forall>x\<in>set xs. f x = Some False"
  by (induction xs) (auto split: option.splits bool.splits)

lemma isDescendant_terminates:
  assumes "acyclic_forest (folders d)"
  shows "card {i. descendant (folders d) c i} < n \<Longrightarrow> isDescendant n d c t \<noteq> None"
proof (induction n arbitrary: c)
  case 0
  then show ?case by simp
next
  case (Suc n)
  show ?case
  proof
    assume none: "isDescendant (Suc n) d c t = None"
    then have "first_true (\<lambda>child. isDescendant n d child t) (select_children d c) = None"
      by (simp split: if_splits)
    from first_true_None[OF this] obtain ch where
      ch: "ch \<in> set (select_children d c)" "isDescendant n d ch t = None" by blast
    from ch(1) obtain r where r: "r \<in> set (folders d)" "parent_folder_id r = Some c" "folder_id r = ch"
      by (auto simp: select_children_iff)
    from card_descendants_child[OF assms r(1,2)] Suc.prems r(3)
    have "card {i. descendant (folders d) ch i} < n" by simp
    from Suc.IH[OF this] ch(2) show False by simp
  qed
qed

lemma getSubfolders_terminates:
  assumes "acyclic_forest (folders d)"
  shows "card {i. descendant (folders d) c i} < n \<Longrightarrow> deleteFolder_getSubfolders n d c \<noteq> None"
proof (induction n arbitrary: c)
  case 0
  then show ?case by simp
next
  case (Suc n)
  show ?case
  proof
    assume "deleteFolder_getSubfolders (Suc n) d c = None"
    then have "those (map (\<lambda>sub. map_option (Cons sub) (deleteFolder_getSubfolders n d sub))
                 (select_children d c)) = None"
      by simp
    then obtain ch where
      ch: "ch \<in> set (select_children d c)" "deleteFolder_getSubfolders n d ch = None"
      by (auto simp: those_map_None)
    from ch(1) obtain r where r: "r \<in> set (folders d)" "parent_folder_id r = Some c" "folder_id r = ch"
      by (auto simp: select_children_iff)
    from card_descendants_child[OF assms r(1,2)] Suc.prems r(3)
    have "card {i. descendant (folders d) ch i} < n" by simp
    from Suc.IH[OF this] ch(2) show False by simp
  qed
qed

lemma isDescendant_sound:
  "isDescendant n d c t = Some False \<Longrightarrow> \<not> in_subtree (folders d) c t"
proof (induction n arbitrary: c)
  case 0
  then show ?case by simp
next
  case (Suc n)
  from Suc.prems have ne: "c \<noteq> t"
    and ft: "first_true (\<lambda>child. isDescendant n d child t) (select_children d c) = Some False"
    by (simp_all split: if_splits)
  show ?case
  proof
    assume "in_subtree (folders d) c t"
    with ne have "descendant (folders d) c t" by (simp add: in_subtree_def)
    from descendant_first[OF this] obtain r where
      r: "r \<in> set (folders d)" "parent_folder_id r = Some c" "in_subtree (folders d) (folder_id r) t"
      by blast
    then have "folder_id r \<in> set (select_children d c)" by (auto simp: select_children_iff)
    with first_true_False[OF ft] have "isDescendant n d (folder_id r) t = Some False" by blast
    from Suc.IH[OF this] r(3) show False by simp
  qed
qed

lemma descendant_owner:
  assumes "store_ok d" "ra \<in> set (folders d)"
  shows "descendant (folders d) (folder_id ra) i \<Longrightarrow>
         \<exists>ri\<in>set (folders d). folder_id ri = i \<and> user_id ri = user_id ra"
proof (induction rule: descendant.induct)
  case (child r)
  with assms show ?case by (auto simp: store_ok_def)
next
  case (below p r)
  then obtain rp where "rp \<in> set (folders d)" "folder_id rp = p" "user_id rp = user_id ra" by blast
  with below(2,3) assms(1) show ?case by (auto simp: store_ok_def)
qed

lemma store_ok_cong:
  "folders d' = folders d \<Longrightarrow> next_folder_id d' = next_folder_id d \<Longrightarrow> store_ok d' = store_ok d"
  by (simp add: store_ok_def)

lemma store_okI:
  assumes "distinct (map folder_id (folders d))"
    and "\<And>r. r \<in> set (folders d) \<Longrightarrow> rooted (folders d) r"
    and "0 < next_folder_id d"
    and "\<And>r. r \<in> set (folders d) \<Longrightarrow> 0 < folder_id r \<and> folder_id r < next_folder_id d"
    and "\<And>r g. r \<in> set (folders d) \<Longrightarrow> g \<in> set (folders d) \<Longrightarrow>
           parent_folder_id r = Some (folder_id g) \<Longrightarrow> user_id g = user_id r"
  shows "store_ok d"
  unfolding store_ok_def acyclic_forest_def
  using assms by blast

lemma store_okD:
  assumes "store_ok d"
  shows "distinct (map folder_id (folders d))"
    and "r \<in> set (folders d) \<Longrightarrow> rooted (folders d) r"
    and "0 < next_folder_id d"
    and "r \<in> set (folders d) \<Longrightarrow> 0 < folder_id r \<and> folder_id r < next_folder_id d"
    and "r \<in> set (folders d) \<Longrightarrow> g \<in> set (folders d) \<Longrightarrow>
           parent_folder_id r = Some (folder_id g) \<Longrightarrow> user_id g = user_id r"
  using assms unfolding store_ok_def acyclic_forest_def by blast+

lemma rooted_parent_exists:
  "rooted fs r \<Longrightarrow> parent_folder_id r = Some p \<Longrightarrow> p \<in> folder_id ` set fs"
  by (induction rule: rooted.induct) auto

text \<open>\<open>moveFolder\<close> into the own subtree.\<close>

lemma moveFolder_rejects:
  assumes ok: "store_ok (db w)" and nf: "\<not> faults w SelectStmt"
    and sel: "select_folder (db w) f u = folder # rest"
    and sub: "in_subtree (folders (db w)) f t"
    and fuel: "length (folders (db w)) < fuel"
  shows "moveFolder fuel w u f (Some t) =
           Some (rollback (emit TxBegin w)
                   (if t = f then ''Cannot move a folder to itself''
                    else ''Cannot move a folder to its own subfolder''))"
proof (cases "t = f")
  case True
  then show ?thesis using nf sel by (simp add: moveFolder_def)
next
  case False
  with sub have desc: "descendant (folders (db w)) f t" by (simp add: in_subtree_def)
  note fo = select_folder_hd[OF sel]
  from descendant_owner[OF ok, of folder t] desc fo obtain rt where
    rt: "rt \<in> set (folders (db w))" "folder_id rt = t" "user_id rt = u" by auto
  from ok have "\<forall>r\<in>set (folders (db w)). 0 < folder_id r \<and> folder_id r < next_folder_id (db w)"
    by (simp add: store_ok_def)
  with rt(1,2) have t0: "t \<noteq> 0" by auto
  from rt have st: "select_folder (db w) t u \<noteq> []"
    by (auto simp: select_folder_def filter_empty_conv)
  from ok have af: "acyclic_forest (folders (db w))" by (simp add: store_ok_def)
  have "card {i. descendant (folders (db w)) f i} < fuel"
    using card_descendants_le[of "folders (db w)" f] fuel by simp
  from isDescendant_terminates[OF af this, of t] isDescendant_sound[of fuel "db w" f t] sub
  have "isDescendant fuel (db w) f t = Some True"
    by (cases "isDescendant fuel (db w) f t") auto
  then have "moveFolder_checks fuel (db w) u folder f (Some t) =
      Some (Some ''Cannot move a folder to its own subfolder'')"
    using t0 st by (simp add: moveFolder_checks_def if_truthy_def)
  then show ?thesis
    using False nf sel by (simp add: moveFolder_def)
qed

text \<open>Each write of the folder controller keeps the invariant.\<close>

lemma insert_folder_ok:
  assumes ok: "store_ok d" and ins: "insert_folder u p n d = Some (i, d')"
    and par: "if_truthy p (\<lambda>q. select_folder d q u \<noteq> []) True"
  shows "store_ok d'"
proof -
  let ?r = "\<lparr>folder_id = next_folder_id d, user_id = u, parent_folder_id = p, folder_name = n\<rparr>"
  from ins have fk: "fk_ok (folders d) p"
    and d': "folders d' = folders d @ [?r]" "next_folder_id d' = next_folder_id d + 1"
    by (auto simp: insert_folder_def Let_def split: if_splits)
  from ok have dist: "distinct (map folder_id (folders d))"
    and rooted: "\<forall>r\<in>set (folders d). rooted (folders d) r"
    and pos: "0 < next_folder_id d"
    and bound: "\<forall>r\<in>set (folders d). 0 < folder_id r \<and> folder_id r < next_folder_id d"
    and own: "\<forall>r\<in>set (folders d). \<forall>g\<in>set (folders d).
         parent_folder_id r = Some (folder_id g) \<longrightarrow> user_id g = user_id r"
    by (simp_all add: store_ok_def acyclic_forest_def)
  have fresh: "next_folder_id d \<notin> folder_id ` set (folders d)"
    using bound by auto
  have 1: "distinct (map folder_id (folders d'))"
    using dist fresh by (simp add: d')
  have oldr: "rooted (folders d') r" if "r \<in> set (folders d)" for r
    using rooted that by (auto intro: rooted_mono simp: d')
  have newr: "rooted (folders d') ?r"
  proof (cases p)
    case None
    then show ?thesis by (simp add: rooted.top)
  next
    case (Some q)
    with fk obtain g where g: "g \<in> set (folders d)" "folder_id g = q"
      by (auto simp: fk_ok_def folder_exists_def)
    show ?thesis
      by (rule rooted.under[of _ q g]) (use Some g oldr in \<open>auto simp: d'\<close>)
  qed
  have 2: "\<forall>r\<in>set (folders d'). rooted (folders d') r"
    using oldr newr by (auto simp: d')
  have 3: "\<forall>r\<in>set (folders d'). 0 < folder_id r \<and> folder_id r < next_folder_id d'"
    using bound pos by (auto simp: d')
  have 4: "user_id g = user_id r"
    if "r \<in> set (folders d')" "g \<in> set (folders d')" "parent_folder_id r = Some (folder_id g)"
    for r g
  proof (cases "r = ?r")
    case True
    with that(3) have pg: "p = Some (folder_id g)" by simp
    have gd: "g \<in> set (folders d)"
    proof (rule ccontr)
      assume "g \<notin> set (folders d)"
      with that(2) have "g = ?r" by (simp add: d')
      with pg fk fresh show False by (auto simp: fk_ok_def folder_exists_def)
    qed
    with bound have "folder_id g \<noteq> 0" by auto
    with par pg obtain x rest where x: "select_folder d (folder_id g) u = x # rest"
      by (cases "select_folder d (folder_id g) u") (auto simp: if_truthy_def)
    from select_folder_hd[OF x] unique_row[OF dist _ gd] have "x = g" "user_id x = u" by auto
    with True show ?thesis by simp
  next
    case False
    with that(1) have rd: "r \<in> set (folders d)" by (simp add: d')
    from rooted_parent_exists[OF _ that(3)] rooted rd
    have "folder_id g \<in> folder_id ` set (folders d)" by auto
    with fresh have "g \<noteq> ?r" by auto
    with that(2) have "g \<in> set (folders d)" by (simp add: d')
    with own rd that(3) show ?thesis by blast
  qed
  from 1 2 3 4 pos show ?thesis
    by (auto simp: store_ok_def acyclic_forest_def d')
qed

lemma map_rows_ok:
  assumes ok: "store_ok d"
    and h: "\<And>x. folder_id (h x) = folder_id x" "\<And>x. parent_folder_id (h x) = parent_folder_id x"
      "\<And>x. user_id (h x) = user_id x"
    and d': "folders d' = map h (folders d)" "next_folder_id d' = next_folder_id d"
  shows "store_ok d'"
proof -
  have "map folder_id (map h (folders d)) = map folder_id (folders d)"
    by (simp add: h(1) comp_def)
  moreover have "\<forall>r\<in>set (folders d). rooted (map h (folders d)) (h r)"
    using ok rooted_map[of h, OF h(1,2)] by (auto simp: store_ok_def acyclic_forest_def)
  ultimately show ?thesis
    using ok unfolding store_ok_def acyclic_forest_def d'
    by (simp add: h del: map_map)
qed

lemma update_folder_name_ok:
  assumes "store_ok d" "update_folder_name f n d = Some d'"
  shows "store_ok d'"
proof -
  let ?h = "\<lambda>r. if folder_id r = f then r\<lparr>folder_name := n\<rparr> else r"
  from assms(2) have "d' = d\<lparr>folders := map ?h (folders d)\<rparr>"
    unfolding update_folder_name_def Let_def by (simp split: if_splits)
  then have "folders d' = map ?h (folders d)" "next_folder_id d' = next_folder_id d"
    by simp_all
  then show ?thesis
    by (intro map_rows_ok[OF assms(1), of ?h]) auto
qed

lemma not_in_subtree_parent:
  assumes "\<not> in_subtree fs a (folder_id h)" "h \<in> set fs" "parent_folder_id h = Some q"
  shows "\<not> in_subtree fs a q"
  using assms in_subtree_child by blast

lemma update_folder_parent_ok:
  assumes ok: "store_ok d" and sel: "select_folder d f u = folder # rest"
    and ne: "Some f \<noteq> p"
    and chk: "moveFolder_checks fuel d u folder f p = Some None"
    and upd: "update_folder_parent f p d = Some d'"
  shows "store_ok d'"
proof -
  let ?fs = "folders d"
  let ?h = "\<lambda>r. if folder_id r = f then r\<lparr>parent_folder_id := p\<rparr> else r"
  note fo = select_folder_hd[OF sel]
  from ok have dist: "distinct (map folder_id ?fs)"
    and rooted: "\<forall>r\<in>set ?fs. rooted ?fs r"
    and pos: "0 < next_folder_id d"
    and bound: "\<forall>r\<in>set ?fs. 0 < folder_id r \<and> folder_id r < next_folder_id d"
    and own: "\<forall>r\<in>set ?fs. \<forall>g\<in>set ?fs.
         parent_folder_id r = Some (folder_id g) \<longrightarrow> user_id g = user_id r"
    by (simp_all add: store_ok_def acyclic_forest_def)
  from fo have "filter (\<lambda>r. folder_id r = f) ?fs \<noteq> []"
    by (auto simp: filter_empty_conv)
  then have ne_rows: "filter (\<lambda>r. folder_id r = f) ?fs \<noteq> []" .
  from upd have "(filter (\<lambda>r. folder_id r = f) ?fs = [] \<or> fk_ok ?fs p) \<and>
      d' = d\<lparr>folders := map ?h ?fs\<rparr>"
    unfolding update_folder_parent_def Let_def by (simp split: if_splits)
  with ne_rows have fk: "fk_ok ?fs p"
    and d': "folders d' = map ?h ?fs" "next_folder_id d' = next_folder_id d"
    by simp_all
  have ids: "map folder_id (map ?h ?fs) = map folder_id ?fs"
    by (rule nth_equalityI) auto
  have hin: "?h r \<in> set (map ?h ?fs)" if "r \<in> set ?fs" for r
    using that by (rule imageI[of r "set ?fs" ?h, folded set_map])
  have dest: "p = None \<or> (\<exists>g\<in>set ?fs. p = Some (folder_id g) \<and> user_id g = u \<and>
                 \<not> in_subtree ?fs f (folder_id g))"
  proof (cases p)
    case None
    then show ?thesis by simp
  next
    case (Some q)
    with fk obtain g where g: "g \<in> set ?fs" "folder_id g = q"
      by (auto simp: fk_ok_def folder_exists_def)
    with bound have q0: "q \<noteq> 0" by auto
    from chk Some q0 have s: "select_folder d q u \<noteq> []" and i: "isDescendant fuel d f q = Some False"
      by (auto simp: moveFolder_checks_def if_truthy_def split: if_splits option.splits bool.splits)
    from s obtain x xs where x: "select_folder d q u = x # xs"
      by (cases "select_folder d q u") auto
    from select_folder_hd[OF x] unique_row[OF dist _ g(1)] g(2) have "user_id g = u" by auto
    with g Some isDescendant_sound[OF i] show ?thesis by auto
  qed
  have rooted': "rooted (map ?h ?fs) (?h r)" if "r \<in> set ?fs" for r
  proof (cases p)
    case None
    from rooted that have "rooted ?fs r" by blast
    then show ?thesis
    proof (induction rule: rooted.induct)
      case (top r)
      then have "parent_folder_id (?h r) = None" by (simp add: None)
      then show ?case by (rule rooted.top)
    next
      case (under r q g)
      show ?case
      proof (cases "folder_id r = f")
        case True
        then have "parent_folder_id (?h r) = None" by (simp add: None)
        then show ?thesis by (rule rooted.top)
      next
        case False
        with under(1) have a: "parent_folder_id (?h r) = Some q" by simp
        from under(3) have b: "folder_id (?h g) = q" by simp
        show ?thesis by (rule rooted.under[OF a hin[OF under(2)] b under.IH])
      qed
    qed
  next
    case (Some q)
    with dest obtain gp where gp: "gp \<in> set ?fs" "folder_id gp = q"
      "\<not> in_subtree ?fs f q" by auto
    have outside: "rooted (map ?h ?fs) x"
      if "rooted ?fs x" "x \<in> set ?fs" "\<not> in_subtree ?fs f (folder_id x)" for x
      using that
    proof (induction rule: rooted.induct)
      case (top r)
      from top(1) show ?case by (rule rooted.top)
    next
      case (under r q' g)
      from not_in_subtree_parent[OF under.prems(2,1) under(1)] under(3)
      have ng: "\<not> in_subtree ?fs f (folder_id g)" by simp
      then have gf: "folder_id g \<noteq> f" by (auto simp: in_subtree_def)
      have rg: "rooted (map ?h ?fs) g" using under.IH[OF under(2) ng] .
      from hin[OF under(2)] gf have gin: "g \<in> set (map ?h ?fs)" by simp
      show ?case by (rule rooted.under[OF under(1) gin under(3) rg])
    qed
    from gp(1) rooted have "rooted ?fs gp" by blast
    from outside[OF this gp(1)] gp(2,3) have rgp1: "rooted (map ?h ?fs) gp" by simp
    from gp(2,3) have "folder_id gp \<noteq> f" by (auto simp: in_subtree_def)
    with hin[OF gp(1)] have rgp2: "gp \<in> set (map ?h ?fs)" by simp
    have moved: "rooted (map ?h ?fs) (?h x)" if "folder_id x = f" for x
    proof -
      from that have a: "parent_folder_id (?h x) = Some q" by (simp add: Some)
      show ?thesis by (rule rooted.under[OF a rgp2 gp(2) rgp1])
    qed
    from rooted that have "rooted ?fs r" by blast
    then show ?thesis
    proof (induction rule: rooted.induct)
      case (top r)
      show ?case
      proof (cases "folder_id r = f")
        case True
        then show ?thesis by (rule moved)
      next
        case False
        with top have "parent_folder_id (?h r) = None" by simp
        then show ?thesis by (rule rooted.top)
      qed
    next
      case (under r q' g)
      show ?case
      proof (cases "folder_id r = f")
        case True
        then show ?thesis by (rule moved)
      next
        case False
        with under(1) have a: "parent_folder_id (?h r) = Some q'" by simp
        from under(3) have b: "folder_id (?h g) = q'" by simp
        show ?thesis by (rule rooted.under[OF a hin[OF under(2)] b under.IH])
      qed
    qed
  qed
  have own': "user_id g' = user_id r'"
    if "r' \<in> set (map ?h ?fs)" "g' \<in> set (map ?h ?fs)" "parent_folder_id r' = Some (folder_id g')"
    for r' g'
  proof -
    from that obtain r g where r: "r \<in> set ?fs" "r' = ?h r" and g: "g \<in> set ?fs" "g' = ?h g"
      by auto
    have ug: "user_id g' = user_id g" "folder_id g' = folder_id g" using g(2) by auto
    show ?thesis
    proof (cases "folder_id r = f")
      case True
      with unique_row[OF dist r(1) fo[THEN conjunct1]] fo have ru: "user_id r = u" by auto
      from True r(2) that(3) ug have "p = Some (folder_id g)" by simp
      with dest obtain gd where "gd \<in> set ?fs" "folder_id gd = folder_id g" "user_id gd = u"
        by auto
      with unique_row[OF dist this(1) g(1)] have "user_id g = u" by auto
      with ru ug r(2) True show ?thesis by simp
    next
      case False
      with r(2) that(3) ug have "parent_folder_id r = Some (folder_id g)" by simp
      with own r(1) g(1) have "user_id g = user_id r" by blast
      with ug r(2) False show ?thesis by simp
    qed
  qed
  have src: "\<exists>x\<in>set ?fs. r' = ?h x" if "r' \<in> set (folders d')" for r'
    using that unfolding d' set_map by blast
  show ?thesis
  proof (rule store_okI)
    show "distinct (map folder_id (folders d'))"
      unfolding d' ids by (rule dist)
    show "0 < next_folder_id d'"
      unfolding d' by (rule pos)
  next
    fix r' assume "r' \<in> set (folders d')"
    from src[OF this] obtain x where x: "x \<in> set ?fs" "r' = ?h x" by blast
    show "rooted (folders d') r'"
      unfolding d' x(2) by (rule rooted'[OF x(1)])
    have "folder_id r' = folder_id x" unfolding x(2) by simp
    with bound x(1) show "0 < folder_id r' \<and> folder_id r' < next_folder_id d'"
      unfolding d' by simp
  next
    fix r' g' assume "r' \<in> set (folders d')" "g' \<in> set (folders d')"
      "parent_folder_id r' = Some (folder_id g')"
    then show "user_id g' = user_id r'"
      unfolding d' by (rule own')
  qed
qed

lemma delete_subtree_ok:
  assumes ok: "store_ok d"
    and d': "folders d' = filter (\<lambda>r. \<not> in_subtree (folders d) a (folder_id r)) (folders d)"
      "next_folder_id d' = next_folder_id d"
  shows "store_ok d'"
proof -
  let ?fs = "folders d"
  have keep: "rooted (folders d') r"
    if "rooted ?fs r" "r \<in> set ?fs" "\<not> in_subtree ?fs a (folder_id r)" for r
    using that
  proof (induction rule: rooted.induct)
    case (top r)
    from top(1) show ?case by (rule rooted.top)
  next
    case (under r q g)
    from not_in_subtree_parent[OF under.prems(2,1) under(1)] under(3)
    have ng: "\<not> in_subtree ?fs a (folder_id g)" by simp
    with under(2) have "g \<in> set (folders d')" by (simp add: d')
    then show ?case
      by (rule rooted.under[OF under(1) _ under(3) under.IH[OF under(2) ng]])
  qed
  have old: "r \<in> set ?fs \<and> \<not> in_subtree ?fs a (folder_id r)" if "r \<in> set (folders d')" for r
    using that unfolding d' by simp
  show ?thesis
  proof (rule store_okI)
    show "distinct (map folder_id (folders d'))"
      unfolding d' using store_okD(1)[OF ok] by (rule distinct_map_filter)
    show "0 < next_folder_id d'"
      unfolding d' by (rule store_okD(3)[OF ok])
  next
    fix r assume r: "r \<in> set (folders d')"
    from old[OF r] have o: "r \<in> set ?fs" "\<not> in_subtree ?fs a (folder_id r)" by simp_all
    show "rooted (folders d') r"
      by (rule keep[OF store_okD(2)[OF ok o(1)] o])
    show "0 < folder_id r \<and> folder_id r < next_folder_id d'"
      unfolding d'(2) by (rule store_okD(4)[OF ok o(1)])
  next
    fix r g assume "r \<in> set (folders d')" "g \<in> set (folders d')"
      and pg: "parent_folder_id r = Some (folder_id g)"
    then have "r \<in> set ?fs" "g \<in> set ?fs" using old by blast+
    then show "user_id g = user_id r"
      using pg by (rule store_okD(5)[OF ok])
  qed
qed

lemma createFolder_failure:
  assumes "createFolder w u n p = (w', Failure m)"
  shows "db w' = db w"
  using assms
  by (simp add: createFolder_def Let_def split: if_splits option.splits prod.splits list.splits)

lemma createFolder_parent:
  assumes "createFolder w u n p = (w', Success r)"
  shows "\<not> if_truthy p (\<lambda>q. select_folder (db w) q u = []) False"
  using assms
  by (simp add: createFolder_def Let_def split: if_splits option.splits prod.splits list.splits)

lemma renameFolder_failure:
  assumes "renameFolder w u f n = (w', Failure m)"
  shows "db w' = db w"
  using assms
  by (simp add: renameFolder_def Let_def split: if_splits option.splits prod.splits list.splits)

lemma moveFolder_failure:
  assumes "moveFolder fuel w u f p = Some (w', Failure m)"
  shows "db w' = db w"
  using assms
  by (simp add: moveFolder_def Let_def split: if_splits option.splits prod.splits list.splits)

lemma deleteFolder_failure:
  assumes "deleteFolder fuel w u f = Some (w', Failure m)"
  shows "folders (db w') = folders (db w) \<and> next_folder_id (db w') = next_folder_id (db w)"
  using assms
  by (auto simp: deleteFolder_def Let_def split: if_splits option.splits prod.splits list.splits)

lemma createFolder_store_ok:
  assumes ok: "store_ok (db w)"
  shows "store_ok (db (fst (createFolder w u n p)))"
proof -
  obtain w' r where c: "createFolder w u n p = (w', r)"
    by (cases "createFolder w u n p")
  show ?thesis
  proof (cases r)
    case (Success j)
    from createFolder_success[OF c[unfolded Success]] obtain i d' where
      ins: "insert_folder u p n (db w) = Some (i, d')" and d': "db w' = d'"
      by auto
    from createFolder_parent[OF c[unfolded Success]]
    have "if_truthy p (\<lambda>q. select_folder (db w) q u \<noteq> []) True"
      by (auto simp: if_truthy_def split: option.splits if_splits)
    from insert_folder_ok[OF ok ins this] show ?thesis
      by (simp add: c d')
  next
    case (Failure m)
    from createFolder_failure[OF c[unfolded Failure]] ok show ?thesis
      by (simp add: c)
  qed
qed

lemma createFolder_size:
  "length (folders (db (fst (createFolder w u n p)))) \<le> Suc (length (folders (db w)))"
proof -
  obtain w' r where c: "createFolder w u n p = (w', r)"
    by (cases "createFolder w u n p")
  show ?thesis
  proof (cases r)
    case (Success j)
    from createFolder_success[OF c[unfolded Success]] obtain i d' where
      ins: "insert_folder u p n (db w) = Some (i, d')" and d': "db w' = d'"
      by auto
    from ins have "length (folders d') = Suc (length (folders (db w)))"
      by (auto simp: insert_folder_def Let_def split: if_splits)
    then show ?thesis by (simp add: c d')
  next
    case (Failure m)
    from createFolder_failure[OF c[unfolded Failure]] show ?thesis
      by (simp add: c)
  qed
qed

lemma renameFolder_store_ok:
  assumes ok: "store_ok (db w)"
  shows "store_ok (db (fst (renameFolder w u f n)))"
proof -
  obtain w' r where c: "renameFolder w u f n = (w', r)"
    by (cases "renameFolder w u f n")
  show ?thesis
  proof (cases r)
    case (Success j)
    from renameFolder_success[OF c[unfolded Success]] obtain d' where
      upd: "update_folder_name f n (db w) = Some d'" and d': "db w' = d'"
      by auto
    from update_folder_name_ok[OF ok upd] show ?thesis
      by (simp add: c d')
  next
    case (Failure m)
    from renameFolder_failure[OF c[unfolded Failure]] ok show ?thesis
      by (simp add: c)
  qed
qed

lemma renameFolder_size:
  "length (folders (db (fst (renameFolder w u f n)))) = length (folders (db w))"
proof -
  obtain w' r where c: "renameFolder w u f n = (w', r)"
    by (cases "renameFolder w u f n")
  show ?thesis
  proof (cases r)
    case (Success j)
    from renameFolder_success[OF c[unfolded Success]] obtain d' where
      upd: "update_folder_name f n (db w) = Some d'" and d': "db w' = d'"
      by auto
    from upd have "length (folders d') = length (folders (db w))"
      by (auto simp: update_folder_name_def Let_def split: if_splits)
    then show ?thesis by (simp add: c d')
  next
    case (Failure m)
    from renameFolder_failure[OF c[unfolded Failure]] show ?thesis
      by (simp add: c)
  qed
qed

lemma moveFolder_store_ok:
  assumes ok: "store_ok (db w)" and c: "moveFolder fuel w u f p = Some (w', r)"
  shows "store_ok (db w')"
proof (cases r)
  case (Success j)
  from moveFolder_success[OF c[unfolded Success]] obtain folder :: folder_row and rest d' where
    sel: "select_folder (db w) f u = folder # rest" and ne: "Some f \<noteq> p" and
    chk: "moveFolder_checks fuel (db w) u folder f p = Some None" and
    upd: "update_folder_parent f p (db w) = Some d'" and d': "db w' = d'"
    by auto
  from update_folder_parent_ok[OF ok sel ne chk upd] show ?thesis
    by (simp add: d')
next
  case (Failure m)
  from moveFolder_failure[OF c[unfolded Failure]] ok show ?thesis
    by simp
qed

lemma moveFolder_size:
  assumes c: "moveFolder fuel w u f p = Some (w', r)"
  shows "length (folders (db w')) = length (folders (db w))"
proof (cases r)
  case (Success j)
  from moveFolder_success[OF c[unfolded Success]] obtain d' where
    upd: "update_folder_parent f p (db w) = Some d'" and d': "db w' = d'"
    by auto
  from upd have "length (folders d') = length (folders (db w))"
    by (auto simp: update_folder_parent_def Let_def split: if_splits)
  then show ?thesis by (simp add: d')
next
  case (Failure m)
  from moveFolder_failure[OF c[unfolded Failure]] show ?thesis
    by simp
qed

lemma moveFolder_returns:
  assumes ok: "store_ok (db w)" and fuel: "length (folders (db w)) < fuel"
  shows "moveFolder fuel w u f p \<noteq> None"
proof -
  from ok have af: "acyclic_forest (folders (db w))" by (simp add: store_ok_def)
  have "card {i. descendant (folders (db w)) f i} < fuel"
    using card_descendants_le[of "folders (db w)" f] fuel by simp
  note ret = isDescendant_terminates[OF af this]
  have chk: "moveFolder_checks fuel (db w) u folder f p \<noteq> None" for folder
  proof (cases p)
    case None
    then show ?thesis by (simp add: moveFolder_checks_def if_truthy_def)
  next
    case (Some q)
    from ret[of q] obtain b where b: "isDescendant fuel (db w) f q = Some b" by blast
    show ?thesis
      by (cases b) (simp_all add: moveFolder_checks_def if_truthy_def Some b)
  qed
  show ?thesis
  proof (cases "select_folder (db w) f u")
    case Nil
    then show ?thesis by (simp add: moveFolder_def Let_def)
  next
    case (Cons folder rest)
    from chk[of folder] obtain c where c: "moveFolder_checks fuel (db w) u folder f p = Some c"
      by blast
    show ?thesis
      by (cases c) (simp_all add: moveFolder_def Cons c Let_def split: option.splits)
  qed
qed

lemma deleteFolder_store_ok:
  assumes ok: "store_ok (db w)" and c: "deleteFolder fuel w u f = Some (w', r)"
  shows "store_ok (db w')"
proof (cases r)
  case (Success j)
  from deleteFolder_effect(1,2)[OF c[unfolded Success]] show ?thesis
    by (rule delete_subtree_ok[OF ok])
next
  case (Failure m)
  from deleteFolder_failure[OF c[unfolded Failure]] ok show ?thesis
    using store_ok_cong[of "db w'" "db w"] by simp
qed

lemma deleteFolder_size:
  assumes c: "deleteFolder fuel w u f = Some (w', r)"
  shows "length (folders (db w')) \<le> length (folders (db w))"
proof (cases r)
  case (Success j)
  from deleteFolder_effect(1)[OF c[unfolded Success]] show ?thesis
    by simp
next
  case (Failure m)
  from deleteFolder_failure[OF c[unfolded Failure]] show ?thesis
    by simp
qed

lemma deleteFolder_returns:
  assumes ok: "store_ok (db w)" and fuel: "length (folders (db w)) < fuel"
  shows "deleteFolder fuel w u f \<noteq> None"
proof -
  let ?w1 = "delete_files_of (emit TxBegin w) u
               (filter (\<lambda>r. file_folder_id r = Some f) (files (db w)))"
  have fs: "folders (db ?w1) = folders (db w)" by simp
  from ok have af: "acyclic_forest (folders (db ?w1))" by (simp add: store_ok_def)
  have "card {i. descendant (folders (db ?w1)) f i} < fuel"
    using card_descendants_le[of "folders (db w)" f] fuel by simp
  from getSubfolders_terminates[OF af this]
  obtain subs where "deleteFolder_getSubfolders fuel (db ?w1) f = Some subs"
    by blast
  then show ?thesis
    by (simp add: deleteFolder_def Let_def split: list.splits)
qed

lemma startup_store_ok: "store_ok (db (startup root))"
proof (rule store_okI)
  fix r assume "r \<in> set (folders (db (startup root)))"
  then have r: "r = \<lparr>folder_id = 1, user_id = 1, parent_folder_id = None, folder_name = ''Root''\<rparr>"
    by (simp add: startup_def)
  show "rooted (folders (db (startup root))) r"
    by (rule rooted.top) (simp add: r)
  show "0 < folder_id r \<and> folder_id r < next_folder_id (db (startup root))"
    by (simp add: r startup_def)
next
  fix r g assume "r \<in> set (folders (db (startup root)))" "parent_folder_id r = Some (folder_id g)"
  then show "user_id g = user_id r"
    by (simp add: startup_def)
qed (simp_all add: startup_def)

lemma apply_op_ok:
  assumes ok: "store_ok (db w)" and fuel: "length (folders (db w)) < fuel"
  shows "\<exists>w'. apply_op fuel w op = Some w' \<and> store_ok (db w') \<and>
              length (folders (db w')) \<le> Suc (length (folders (db w)))"
proof (cases op)
  case (CreateFolder u n p)
  then show ?thesis
    using createFolder_store_ok[OF ok, of u n p] createFolder_size[of w u n p] by simp
next
  case (RenameFolder u f n)
  then show ?thesis
    using renameFolder_store_ok[OF ok, of u f n] renameFolder_size[of w u f n] by simp
next
  case (MoveFolder u f p)
  from moveFolder_returns[OF ok fuel, of u f p] obtain w' r where
    m: "moveFolder fuel w u f p = Some (w', r)" by auto
  from moveFolder_store_ok[OF ok m] moveFolder_size[OF m] show ?thesis
    by (simp add: MoveFolder m)
next
  case (DeleteFolder u f)
  from deleteFolder_returns[OF ok fuel, of u f] obtain w' r where
    m: "deleteFolder fuel w u f = Some (w', r)" by auto
  from deleteFolder_store_ok[OF ok m] deleteFolder_size[OF m] show ?thesis
    by (simp add: DeleteFolder m)
qed

lemma run_ok:
  "store_ok (db w) \<Longrightarrow> length (folders (db w)) + length ops < fuel \<Longrightarrow>
   \<exists>w'. run fuel w ops = Some w' \<and> store_ok (db w') \<and>
        length (folders (db w')) \<le> length (folders (db w)) + length ops"
proof (induction ops arbitrary: w)
  case Nil
  then show ?case by simp
next
  case (Cons op ops)
  from Cons.prems(2) have "length (folders (db w)) < fuel" by simp
  from apply_op_ok[OF Cons.prems(1) this, of op] obtain w1 where
    w1: "apply_op fuel w op = Some w1" "store_ok (db w1)"
      "length (folders (db w1)) \<le> Suc (length (folders (db w)))"
    by blast
  from w1(3) Cons.prems(2) have "length (folders (db w1)) + length ops < fuel" by simp
  from Cons.IH[OF w1(2) this] obtain w' where
    w': "run fuel w1 ops = Some w'" "store_ok (db w')"
      "length (folders (db w')) \<le> length (folders (db w1)) + length ops"
    by blast
  from w'(3) w1(3) have "length (folders (db w')) \<le> length (folders (db w)) + length (op # ops)"
    by simp
  with w1(1) w'(1,2) show ?case by simp
qed

text \<open>
  C3. Start from a folder table that is a forest of owned folders with ids below the
  counter of the table (the start-up table is one), and run any sequence of
  \<open>createFolder\<close>, \<open>renameFolder\<close>, \<open>moveFolder\<close> and \<open>deleteFolder\<close> calls, whatever their
  arguments and whichever statements throw. Every call returns, and in the state
  reached the parent relation is an acyclic forest: ids are unique, every folder
  leads to a root-level folder along its parent pointers, no folder is below itself.
  In that state, for every owner and every folder of that owner, \<open>moveFolder\<close> to the
  folder itself or to any folder below it returns, fails with the message of the
  own-subtree check and leaves the store as it was.
\<close>

theorem moveFolder_keeps_forest:
  assumes "store_ok (db w0)" and "length (folders (db w0)) + length ops < fuel"
  shows "\<exists>w. run fuel w0 ops = Some w \<and>
           acyclic_forest (folders (db w)) \<and>
           (\<forall>i. \<not> descendant (folders (db w)) i i) \<and>
           (\<forall>userId folderId target.
               \<not> faults w SelectStmt \<and> select_folder (db w) folderId userId \<noteq> [] \<and>
               in_subtree (folders (db w)) folderId target \<longrightarrow>
               (\<exists>w'. moveFolder fuel w userId folderId (Some target) =
                       Some (w', Failure (if target = folderId
                                          then ''Cannot move a folder to itself''
                                          else ''Cannot move a folder to its own subfolder'')) \<and>
                     db w' = db w))"
proof -
  from run_ok[OF assms] obtain w where
    w: "run fuel w0 ops = Some w" "store_ok (db w)"
      "length (folders (db w)) \<le> length (folders (db w0)) + length ops"
    by blast
  from w(2) have af: "acyclic_forest (folders (db w))" by (simp add: store_ok_def)
  from w(3) assms(2) have fuel: "length (folders (db w)) < fuel" by simp
  have loop: "\<forall>i. \<not> descendant (folders (db w)) i i"
    using forest_not_below_itself[OF af] by blast
  have rej: "\<exists>w'. moveFolder fuel w u f (Some t) =
                Some (w', Failure (if t = f then ''Cannot move a folder to itself''
                                   else ''Cannot move a folder to its own subfolder'')) \<and>
                db w' = db w"
    if h: "\<not> faults w SelectStmt \<and> select_folder (db w) f u \<noteq> [] \<and> in_subtree (folders (db w)) f t"
    for u f t
  proof -
    from h obtain folder rest where sel: "select_folder (db w) f u = folder # rest"
      by (cases "select_folder (db w) f u") auto
    from h have nf: "\<not> faults w SelectStmt" and sub: "in_subtree (folders (db w)) f t"
      by simp_all
    have "moveFolder fuel w u f (Some t) =
        Some (emit TxRollback (emit TxBegin w),
              Failure (if t = f then ''Cannot move a folder to itself''
                       else ''Cannot move a folder to its own subfolder''))"
      unfolding moveFolder_rejects[OF w(2) nf sel sub fuel] by (simp add: rollback_def)
    then show ?thesis by simp
  qed
  have all: "\<forall>userId folderId target.
               \<not> faults w SelectStmt \<and> select_folder (db w) folderId userId \<noteq> [] \<and>
               in_subtree (folders (db w)) folderId target \<longrightarrow>
               (\<exists>w'. moveFolder fuel w userId folderId (Some target) =
                       Some (w', Failure (if target = folderId
                                          then ''Cannot move a folder to itself''
                                          else ''Cannot move a folder to its own subfolder'')) \<and>
                     db w' = db w)"
    using rej by (intro allI impI)
  show ?thesis
    by (rule exI[of _ w]) (rule conjI[OF w(1) conjI[OF af conjI[OF loop all]]])
qed

theorem moveFolder_keeps_forest_witness:
  "store_ok (db (startup ''/srv/uploads'')) \<and>
   run 6 (startup ''/srv/uploads'') sample_ops \<noteq> None \<and>
   map parent_folder_id (folders (db (the (run 6 (startup ''/srv/uploads'') sample_ops)))) =
     [None, Some 1, Some 1] \<and>
   acyclic_forest (folders (db (the (run 6 (startup ''/srv/uploads'') sample_ops)))) \<and>
   map_option snd (moveFolder 6 (the (run 6 (startup ''/srv/uploads'') sample_ops)) 1 1 (Some 3)) =
     Some (Failure ''Cannot move a folder to its own subfolder'') \<and>
   map_option snd (moveFolder 6 (the (run 6 (startup ''/srv/uploads'') sample_ops)) 1 1 (Some 1)) =
     Some (Failure ''Cannot move a folder to itself'')"
proof -
  let ?init = "startup ''/srv/uploads''"
  let ?end = "the (run 6 ?init sample_ops)"
  have len: "length (folders (db ?init)) + length sample_ops < 6"
    by (simp add: startup_def sample_ops_def)
  from moveFolder_keeps_forest[OF startup_store_ok len] obtain w where
    w: "run 6 ?init sample_ops = Some w" "acyclic_forest (folders (db w))" and
    rej: "\<And>u f t. \<not> faults w SelectStmt \<and> select_folder (db w) f u \<noteq> [] \<and>
               in_subtree (folders (db w)) f t \<Longrightarrow>
               \<exists>w'. moveFolder 6 w u f (Some t) =
                       Some (w', Failure (if t = f then ''Cannot move a folder to itself''
                                          else ''Cannot move a folder to its own subfolder'')) \<and>
                     db w' = db w"
    by blast
  from w(1) have eq: "?end = w" by simp
  have fs: "folders (db ?end) =
      [\<lparr>folder_id = 1, user_id = 1, parent_folder_id = None, folder_name = ''Root''\<rparr>,
       \<lparr>folder_id = 2, user_id = 1, parent_folder_id = Some 1, folder_name = ''C''\<rparr>,
       \<lparr>folder_id = 3, user_id = 1, parent_folder_id = Some 1, folder_name = ''B''\<rparr>]"
    by code_simp
  have nf: "\<not> faults ?end SelectStmt"
    by code_simp
  have sel: "select_folder (db ?end) 1 1 \<noteq> []"
    by code_simp
  have "descendant (folders (db ?end)) 1
          (folder_id \<lparr>folder_id = 3, user_id = 1, parent_folder_id = Some 1, folder_name = ''B''\<rparr>)"
    by (rule descendant.child) (simp_all add: fs)
  then have sub3: "in_subtree (folders (db ?end)) 1 3"
    by (simp add: in_subtree_def)
  have sub1: "in_subtree (folders (db ?end)) 1 1"
    by (simp add: in_subtree_def)
  from rej[of 1 1 3, OF conjI[OF nf[unfolded eq] conjI[OF sel[unfolded eq] sub3[unfolded eq]]]]
  obtain w3 where "moveFolder 6 w 1 1 (Some 3) =
      Some (w3, Failure ''Cannot move a folder to its own subfolder'')"
    by auto
  then have m3: "map_option snd (moveFolder 6 ?end 1 1 (Some 3)) =
              Some (Failure ''Cannot move a folder to its own subfolder'')"
    unfolding eq by simp
  from rej[of 1 1 1, OF conjI[OF nf[unfolded eq] conjI[OF sel[unfolded eq] sub1[unfolded eq]]]]
  obtain w1 where "moveFolder 6 w 1 1 (Some 1) =
      Some (w1, Failure ''Cannot move a folder to itself'')"
    by auto
  then have m1: "map_option snd (moveFolder 6 ?end 1 1 (Some 1)) =
              Some (Failure ''Cannot move a folder to itself'')"
    unfolding eq by simp
  have ps: "map parent_folder_id (folders (db ?end)) = [None, Some 1, Some 1]"
    by (simp add: fs)
  have ne: "run 6 ?init sample_ops \<noteq> None"
    using w(1) by simp
  show ?thesis
    by (rule conjI[OF startup_store_ok conjI[OF ne conjI[OF ps
          conjI[OF w(2)[folded eq] conjI[OF m3 m1]]]]])
qed

subsection \<open>C8: the tree of \<open>getFolderTree\<close> is the forest of the owner\<close>

lemma flatten_simps [simp]:
  "flatten [] = []"
  "flatten (t # ts) = nodes t @ flatten ts"
  by (simp_all add: flatten_def)

lemma nodes_flatten: "nodes t = t # flatten (sub_classifications t)"
  by (cases t) (simp add: flatten_def)

lemma flatten_append [simp]: "flatten (xs @ ys) = flatten xs @ flatten ys"
  by (simp add: flatten_def)

lemma set_flatten:
  "set (flatten ts) = (\<Union>t\<in>set ts. insert t (set (flatten (sub_classifications t))))"
  by (induction ts) (auto simp: nodes_flatten)





lemma root_not_below:
  assumes d: "distinct (map folder_id fs)" and g: "g \<in> set fs" "parent_folder_id g = None"
  shows "\<not> descendant fs a (folder_id g)"
proof
  assume "descendant fs a (folder_id g)"
  from descendant_last[OF this] obtain r' q where
    r': "r' \<in> set fs" "folder_id r' = folder_id g" "parent_folder_id r' = Some q"
    by blast
  from unique_row[OF d r'(1) g(1) r'(2)] r'(3) g(2) show False by simp
qed














end
